theory Spec2Isabelle
  imports Main
begin

section \<open>Outcomes of running the JavaScript\<close>

text \<open>
  A call either returns a value, throws (dereferencing \<open>undefined\<close> is a
  \<open>TypeError\<close>), or is still running when the fuel given to its loops and
  recursion is used up.
\<close>

datatype error = TypeError

datatype 'a outcome = Returns 'a | Throws error | NoFuel

fun and_then :: "'a outcome \<Rightarrow> ('a \<Rightarrow> 'b outcome) \<Rightarrow> 'b outcome" where
  "and_then (Returns x) f = f x"
| "and_then (Throws e) f = Throws e"
| "and_then NoFuel f = NoFuel"

section \<open>The linked structure\<close>

text \<open>
  Objects live in two arenas, one for nodes and one for column headers (the root
  is a header too); a reference is the index of the object in its arena. A field
  that the source leaves \<open>undefined\<close> on some objects is an option: the
  \<open>rowNumber\<close> of a column's head node and the \<open>head\<close> of the root (and of a
  column while it is being created). The root has no \<open>length\<close> in the source;
  the field is never read there and holds 0 here.
\<close>

record node =
  up :: nat
  down :: nat
  left :: nat
  right :: nat
  header :: nat
  rowNumber :: "nat option"

record column =
  head :: "nat option"
  length_h :: int
  prev :: nat
  "next" :: nat

record heap =
  nodes :: "node list"
  headers :: "column list"

datatype direction = Up | Down | Left | Right

datatype hdirection = Prev | Next

fun node_field :: "direction \<Rightarrow> node \<Rightarrow> nat" where
  "node_field Up n = up n"
| "node_field Down n = down n"
| "node_field Left n = left n"
| "node_field Right n = right n"

fun header_field :: "hdirection \<Rightarrow> column \<Rightarrow> nat" where
  "header_field Prev c = prev c"
| "header_field Next c = next c"

definition node_at :: "heap \<Rightarrow> nat \<Rightarrow> node" where
  "node_at h n = nodes h ! n"

definition header_at :: "heap \<Rightarrow> nat \<Rightarrow> column" where
  "header_at h c = headers h ! c"

definition set_up :: "nat \<Rightarrow> nat \<Rightarrow> heap \<Rightarrow> heap" where
  "set_up n v h = h\<lparr>nodes := (nodes h)[n := (nodes h ! n)\<lparr>up := v\<rparr>]\<rparr>"

definition set_down :: "nat \<Rightarrow> nat \<Rightarrow> heap \<Rightarrow> heap" where
  "set_down n v h = h\<lparr>nodes := (nodes h)[n := (nodes h ! n)\<lparr>down := v\<rparr>]\<rparr>"

definition set_left :: "nat \<Rightarrow> nat \<Rightarrow> heap \<Rightarrow> heap" where
  "set_left n v h = h\<lparr>nodes := (nodes h)[n := (nodes h ! n)\<lparr>left := v\<rparr>]\<rparr>"

definition set_right :: "nat \<Rightarrow> nat \<Rightarrow> heap \<Rightarrow> heap" where
  "set_right n v h = h\<lparr>nodes := (nodes h)[n := (nodes h ! n)\<lparr>right := v\<rparr>]\<rparr>"

definition set_rowNumber :: "nat \<Rightarrow> nat option \<Rightarrow> heap \<Rightarrow> heap" where
  "set_rowNumber n v h = h\<lparr>nodes := (nodes h)[n := (nodes h ! n)\<lparr>rowNumber := v\<rparr>]\<rparr>"

definition set_head :: "nat \<Rightarrow> nat option \<Rightarrow> heap \<Rightarrow> heap" where
  "set_head c v h = h\<lparr>headers := (headers h)[c := (headers h ! c)\<lparr>head := v\<rparr>]\<rparr>"

definition set_length :: "nat \<Rightarrow> int \<Rightarrow> heap \<Rightarrow> heap" where
  "set_length c v h = h\<lparr>headers := (headers h)[c := (headers h ! c)\<lparr>length_h := v\<rparr>]\<rparr>"

definition set_prev :: "nat \<Rightarrow> nat \<Rightarrow> heap \<Rightarrow> heap" where
  "set_prev c v h = h\<lparr>headers := (headers h)[c := (headers h ! c)\<lparr>prev := v\<rparr>]\<rparr>"

definition set_next :: "nat \<Rightarrow> nat \<Rightarrow> heap \<Rightarrow> heap" where
  "set_next c v h = h\<lparr>headers := (headers h)[c := (headers h ! c)\<lparr>next := v\<rparr>]\<rparr>"

section \<open>The ring iterators\<close>

text \<open>
  \<open>eachNode(node, direction, fn)\<close> is
  \<open>for (n = node[direction]; n !== node; n = n[direction]) fn(n)\<close>: the callback
  may change the structure, and the step to the next node reads the link as it
  is after the callback. The state \<open>'s\<close> of a loop is whatever its callback
  changes; \<open>hp\<close> reads the linked structure out of it.
\<close>

fun eachNode_from ::
  "nat \<Rightarrow> ('s \<Rightarrow> heap) \<Rightarrow> nat \<Rightarrow> direction \<Rightarrow> (nat \<Rightarrow> 's \<Rightarrow> 's outcome) \<Rightarrow> nat \<Rightarrow> 's \<Rightarrow> 's outcome" where
  "eachNode_from 0 hp node d fn n s = NoFuel"
| "eachNode_from (Suc fuel) hp node d fn n s =
     (if n = node then Returns s
      else and_then (fn n s)
             (\<lambda>s'. eachNode_from fuel hp node d fn (node_field d (node_at (hp s') n)) s'))"

definition eachNode ::
  "nat \<Rightarrow> ('s \<Rightarrow> heap) \<Rightarrow> nat \<Rightarrow> direction \<Rightarrow> (nat \<Rightarrow> 's \<Rightarrow> 's outcome) \<Rightarrow> 's \<Rightarrow> 's outcome" where
  "eachNode fuel hp node d fn s =
     eachNode_from fuel hp node d fn (node_field d (node_at (hp s) node)) s"

fun eachHeader_from ::
  "nat \<Rightarrow> ('s \<Rightarrow> heap) \<Rightarrow> nat \<Rightarrow> hdirection \<Rightarrow> (nat \<Rightarrow> 's \<Rightarrow> 's outcome) \<Rightarrow> nat \<Rightarrow> 's \<Rightarrow> 's outcome" where
  "eachHeader_from 0 hp hdr d fn h s = NoFuel"
| "eachHeader_from (Suc fuel) hp hdr d fn h s =
     (if h = hdr then Returns s
      else and_then (fn h s)
             (\<lambda>s'. eachHeader_from fuel hp hdr d fn (header_field d (header_at (hp s') h)) s'))"

definition eachHeader ::
  "nat \<Rightarrow> ('s \<Rightarrow> heap) \<Rightarrow> nat \<Rightarrow> hdirection \<Rightarrow> (nat \<Rightarrow> 's \<Rightarrow> 's outcome) \<Rightarrow> 's \<Rightarrow> 's outcome" where
  "eachHeader fuel hp hdr d fn s =
     eachHeader_from fuel hp hdr d fn (header_field d (header_at (hp s) hdr)) s"

section \<open>cover and uncover\<close>

text \<open>The body of the inner loop of \<open>cover\<close>: three assignments, in order.\<close>

definition cover_colNode :: "nat \<Rightarrow> heap \<Rightarrow> heap" where
  "cover_colNode colNode h =
     (let h1 = set_down (up (node_at h colNode)) (down (node_at h colNode)) h;
          h2 = set_up (down (node_at h1 colNode)) (up (node_at h1 colNode)) h1
      in set_length (header (node_at h2 colNode))
           (length_h (header_at h2 (header (node_at h2 colNode))) - 1) h2)"

definition cover :: "nat \<Rightarrow> nat \<Rightarrow> heap \<Rightarrow> heap outcome" where
  "cover fuel col h =
     (let h1 = set_prev (next (header_at h col)) (prev (header_at h col)) h;
          h2 = set_next (prev (header_at h1 col)) (next (header_at h1 col)) h1
      in case head (header_at h2 col) of
           None \<Rightarrow> Throws TypeError
         | Some hnode \<Rightarrow>
             eachNode fuel id hnode Down
               (\<lambda>rowNode. eachNode fuel id rowNode Right
                  (\<lambda>colNode g. Returns (cover_colNode colNode g))) h2)"

text \<open>The body of the inner loop of \<open>uncover\<close>.\<close>

definition uncover_colNode :: "nat \<Rightarrow> heap \<Rightarrow> heap" where
  "uncover_colNode colNode h =
     (let h1 = set_length (header (node_at h colNode))
                 (length_h (header_at h (header (node_at h colNode))) + 1) h;
          h2 = set_down (up (node_at h1 colNode)) colNode h1
      in set_up (down (node_at h2 colNode)) colNode h2)"

definition uncover :: "nat \<Rightarrow> nat \<Rightarrow> heap \<Rightarrow> heap outcome" where
  "uncover fuel col h =
     (case head (header_at h col) of
        None \<Rightarrow> Throws TypeError
      | Some hnode \<Rightarrow>
          and_then
            (eachNode fuel id hnode Up
               (\<lambda>rowNode. eachNode fuel id rowNode Left
                  (\<lambda>colNode g. Returns (uncover_colNode colNode g))) h)
            (\<lambda>h1. let h2 = set_prev (next (header_at h1 col)) col h1
                  in Returns (set_next (prev (header_at h2 col)) col h2)))"

section \<open>The recursive search\<close>

text \<open>
  The arrays \<open>solutions\<close> and \<open>partials\<close> are shared by every invocation and
  changed in place, so they are part of the state beside the linked structure.
  \<open>partials[k] = v\<close> on a JavaScript array overwrites index \<open>k\<close> when it
  exists and otherwise grows the array up to it (the indices in between are
  holes, \<open>None\<close> here); it never shortens the array.
\<close>

record search =
  linked :: heap
  solutions :: "nat option list list"
  partials :: "nat option list"

definition array_set :: "'a option list \<Rightarrow> nat \<Rightarrow> 'a option \<Rightarrow> 'a option list" where
  "array_set xs k v =
     (if k < length xs then xs[k := v]
      else xs @ replicate (k - length xs) None @ [v])"

definition on_linked :: "(heap \<Rightarrow> heap outcome) \<Rightarrow> search \<Rightarrow> search outcome" where
  "on_linked f s = and_then (f (linked s)) (\<lambda>h. Returns (s\<lparr>linked := h\<rparr>))"

text \<open>
  The callback of the header loop of \<open>recurse\<close> changes the local variables
  \<open>best\<close> and \<open>smallest\<close> (both \<open>undefined\<close> before the loop); a header object
  is never falsy, so \<open>!best\<close> holds exactly while \<open>best\<close> is undefined, and a
  comparison with an undefined \<open>smallest\<close> is false.
\<close>

record choice =
  best :: "nat option"
  smallest :: "int option"

definition choose_header :: "nat \<Rightarrow> heap \<times> choice \<Rightarrow> (heap \<times> choice) outcome" where
  "choose_header h st =
     (let g = fst st; c = snd st in
      if best c = None \<or> (case smallest c of None \<Rightarrow> False
                                | Some m \<Rightarrow> length_h (header_at g h) < m)
      then Returns (g, \<lparr>best = Some h, smallest = Some (length_h (header_at g h))\<rparr>)
      else Returns st)"

text \<open>
  The callback of the row loop of \<open>recurse\<close>, for one candidate row: record
  the row at depth \<open>k\<close>, cover the other columns of the row (rightwards),
  search one level deeper, and uncover them again (leftwards). \<open>deeper\<close> is
  the recursive call.
\<close>

definition try_row ::
  "(search \<Rightarrow> search outcome) \<Rightarrow> nat \<Rightarrow> nat \<Rightarrow> nat \<Rightarrow> search \<Rightarrow> search outcome" where
  "try_row deeper fuel k rowNode t =
     and_then
       (eachNode fuel linked rowNode Right
          (\<lambda>colNode. on_linked (\<lambda>g. cover fuel (header (node_at g colNode)) g))
          (t\<lparr>partials := array_set (partials t) k (rowNumber (node_at (linked t) rowNode))\<rparr>))
       (\<lambda>t1. and_then (deeper t1)
          (\<lambda>t2. eachNode fuel linked rowNode Left
             (\<lambda>colNode. on_linked (\<lambda>g. uncover fuel (header (node_at g colNode)) g))
             t2))"

fun recurse :: "nat \<Rightarrow> nat \<Rightarrow> nat \<Rightarrow> nat \<Rightarrow> search \<Rightarrow> search outcome" where
  "recurse 0 root mx k s = NoFuel"
| "recurse (Suc fuel) root mx k s =
     (if mx \<noteq> 0 \<and> length (solutions s) = mx then Returns s
      else if next (header_at (linked s) root) = root
      then Returns (s\<lparr>solutions := solutions s @ [partials s]\<rparr>)
      else
        and_then (eachHeader fuel fst root Next choose_header
                    (linked s, \<lparr>best = None, smallest = None\<rparr>))
          (\<lambda>chosen.
             case best (snd chosen) of
               None \<Rightarrow> Returns s
             | Some b \<Rightarrow>
                 if length_h (header_at (linked s) b) > 0
                 then
                   and_then (on_linked (cover fuel b) s)
                     (\<lambda>s1. case head (header_at (linked s1) b) of
                              None \<Rightarrow> Throws TypeError
                            | Some hnode \<Rightarrow>
                                and_then
                                  (eachNode fuel linked hnode Down
                                     (try_row (recurse fuel root mx (k + 1)) fuel k) s1)
                                  (on_linked (uncover fuel b)))
                 else Returns s))"

section \<open>Building the structure\<close>

text \<open>
  \<open>createNode(options)\<close>: the new node is allocated at the end of the node
  arena. With no \<open>left\<close> (no \<open>up\<close>) given, the node is first made a ring of its
  own in that direction and is then its own left (upper) neighbour; the eight
  assignments that follow are the source's, in its order.
\<close>

definition createNode :: "nat \<Rightarrow> nat option \<Rightarrow> nat option \<Rightarrow> heap \<Rightarrow> nat \<times> heap" where
  "createNode col opt_left opt_up h =
     (let n = length (nodes h);
          h0 = h\<lparr>nodes := nodes h @
                 [\<lparr>up = n, down = n, left = n, right = n, header = col, rowNumber = None\<rparr>]\<rparr>;
          l = (case opt_left of Some x \<Rightarrow> x | None \<Rightarrow> n);
          u = (case opt_up of Some x \<Rightarrow> x | None \<Rightarrow> n);
          h1 = set_left n l h0;
          h2 = set_right n (right (node_at h1 l)) h1;
          h3 = set_left (right (node_at h2 l)) n h2;
          h4 = set_right l n h3;
          h5 = set_up n u h4;
          h6 = set_down n (down (node_at h5 u)) h5;
          h7 = set_up (down (node_at h6 u)) n h6;
          h8 = set_down u n h7
      in (n, h8))"

text \<open>
  The state of the builder: the structure, the array \<open>columns\<close> and the
  variable \<open>prev\<close> (\<open>null\<close> before the first column).
\<close>

record builder =
  built :: heap
  columns :: "nat list"
  prev_col :: "nat option"

text \<open>One iteration of the first loop of \<open>solve\<close>: a new column header.\<close>

definition add_column :: "builder \<Rightarrow> builder" where
  "add_column b =
     (let h = built b;
          c = length (headers h);
          h0 = h\<lparr>headers := headers h @ [\<lparr>head = None, length_h = 0, prev = c, next = c\<rparr>]\<rparr>;
          p = (case prev_col b of Some x \<Rightarrow> x | None \<Rightarrow> c);
          h1 = set_length c 0 h0;
          h2 = set_prev c p h1;
          h3 = set_next c (next (header_at h2 p)) h2;
          (n, h4) = createNode c (head (header_at h3 p)) None h3;
          h5 = set_head c (Some n) h4;
          h6 = set_prev (next (header_at h5 p)) c h5;
          h7 = set_next p c h6
      in \<lparr>built = h7, columns = columns b @ [c], prev_col = Some c\<rparr>)"

text \<open>
  The callback of \<open>row.forEach\<close>: \<open>columns[col]\<close> is \<open>undefined\<close> beyond the
  columns created from the first row, and reading its \<open>head\<close> throws.
\<close>

definition add_cell :: "nat list \<Rightarrow> nat \<Rightarrow> int \<Rightarrow> nat \<Rightarrow> heap \<times> nat option \<Rightarrow> (heap \<times> nat option) outcome" where
  "add_cell cols rowIndex v col st =
     (let h = fst st; l = snd st in
      if v \<noteq> 0 then
        (if col < length cols then
           (let c = cols ! col in
            case head (header_at h c) of
              None \<Rightarrow> Throws TypeError
            | Some hnode \<Rightarrow>
                (let (n, h1) = createNode c l (Some (up (node_at h hnode))) h;
                     h2 = set_rowNumber n (Some rowIndex) h1;
                     h3 = set_length c (length_h (header_at h2 c) + 1) h2
                 in Returns (h3, Some n)))
         else Throws TypeError)
      else Returns st)"

fun add_cells :: "nat list \<Rightarrow> nat \<Rightarrow> int list \<Rightarrow> nat \<Rightarrow> heap \<times> nat option \<Rightarrow> (heap \<times> nat option) outcome" where
  "add_cells cols rowIndex [] col st = Returns st"
| "add_cells cols rowIndex (v # vs) col st =
     and_then (add_cell cols rowIndex v col st) (add_cells cols rowIndex vs (col + 1))"

fun add_rows :: "nat list \<Rightarrow> int list list \<Rightarrow> nat \<Rightarrow> heap \<Rightarrow> heap outcome" where
  "add_rows cols [] rowIndex h = Returns h"
| "add_rows cols (row # rows) rowIndex h =
     and_then (add_cells cols rowIndex row 0 (h, None))
       (\<lambda>st. add_rows cols rows (rowIndex + 1) (fst st))"

text \<open>The root header, spliced in before the first column.\<close>

definition add_root :: "nat list \<Rightarrow> heap \<Rightarrow> (nat \<times> heap) outcome" where
  "add_root cols h =
     (case cols of
        [] \<Rightarrow> Throws TypeError
      | c0 # _ \<Rightarrow>
          (let root = length (headers h);
               h0 = h\<lparr>headers := headers h @ [\<lparr>head = None, length_h = 0, prev = root, next = root\<rparr>]\<rparr>;
               h1 = set_prev root (prev (header_at h0 c0)) h0;
               h2 = set_next root c0 h1;
               h3 = set_next (prev (header_at h2 c0)) root h2;
               h4 = set_prev c0 root h3
           in Returns (root, h4)))"

definition build :: "int list list \<Rightarrow> (nat \<times> heap) outcome" where
  "build matrix =
     (case matrix of
        [] \<Rightarrow> Throws TypeError
      | row0 # _ \<Rightarrow>
          (let b = (add_column ^^ length row0)
                     \<lparr>built = \<lparr>nodes = [], headers = []\<rparr>, columns = [], prev_col = None\<rparr>
           in and_then (add_rows (columns b) matrix 0 (built b))
                (\<lambda>h. add_root (columns b) h)))"

text \<open>
  \<open>solve(matrix, options)\<close>; \<open>maxSolutions\<close> is \<open>None\<close> when the option (or the
  whole options object) is absent, and \<open>opts.maxSolutions || 0\<close> is then 0.
\<close>

definition solve :: "nat \<Rightarrow> int list list \<Rightarrow> nat option \<Rightarrow> nat option list list outcome" where
  "solve fuel matrix maxSolutions =
     and_then (build matrix)
       (\<lambda>(root, h).
          and_then (recurse fuel root (case maxSolutions of None \<Rightarrow> 0 | Some m \<Rightarrow> m) 0
                      \<lparr>linked = h, solutions = [], partials = []\<rparr>)
            (\<lambda>s. Returns (solutions s)))"

section \<open>Notions of the specification\<close>

text \<open>
  The column-wise sum of the selected rows of a matrix, and exact covers: a
  selection of valid row indices whose rows sum to exactly 1 in every column
  (the columns are those of the first row, as in \<open>solve\<close>).
\<close>

definition column_sum :: "int list list \<Rightarrow> nat list \<Rightarrow> nat \<Rightarrow> int" where
  "column_sum matrix rows c = sum_list (map (\<lambda>r. matrix ! r ! c) rows)"

definition exact_cover :: "int list list \<Rightarrow> nat list \<Rightarrow> bool" where
  "exact_cover matrix rows \<longleftrightarrow>
     list_all (\<lambda>r. r < length matrix) rows \<and>
     list_all (\<lambda>c. column_sum matrix rows c = 1) [0..<length (hd matrix)]"

text \<open>A returned solution read as row indices; \<open>None\<close> when an entry is no index.\<close>

fun row_indices :: "nat option list \<Rightarrow> nat list option" where
  "row_indices [] = Some []"
| "row_indices (None # xs) = None"
| "row_indices (Some r # xs) = map_option ((#) r) (row_indices xs)"

section \<open>Walks along links\<close>

text \<open>
  \<open>walk f z n xs\<close>: following the link \<open>f\<close> from \<open>n\<close> visits exactly \<open>xs\<close>
  before it arrives at \<open>z\<close>. The headers in the ring of \<open>root\<close> are the walk
  along \<open>next\<close> from \<open>root.next\<close> back to \<open>root\<close>.
\<close>

fun walk :: "(nat \<Rightarrow> nat) \<Rightarrow> nat \<Rightarrow> nat \<Rightarrow> nat list \<Rightarrow> bool" where
  "walk f z n [] \<longleftrightarrow> n = z"
| "walk f z n (x # xs) \<longleftrightarrow> n = x \<and> x \<noteq> z \<and> walk f z (f x) xs"

definition header_ring :: "heap \<Rightarrow> nat \<Rightarrow> nat list \<Rightarrow> bool" where
  "header_ring h root hs \<longleftrightarrow>
     walk (\<lambda>c. next (header_at h c)) root (next (header_at h root)) hs"

text \<open>A loop whose iterations are known in advance: the callback on each, in order.\<close>

fun run_list :: "(nat \<Rightarrow> 's \<Rightarrow> 's outcome) \<Rightarrow> nat list \<Rightarrow> 's \<Rightarrow> 's outcome" where
  "run_list fn [] s = Returns s"
| "run_list fn (x # xs) s = and_then (fn x s) (run_list fn xs)"

section \<open>An example structure\<close>

text \<open>
  The structure that \<open>solve\<close> builds for \<open>example_matrix\<close>: three head nodes
  (0, 1, 2), five nodes for the nonzero cells, three column headers and the
  root (header 3).
\<close>

definition example_matrix :: "int list list" where
  "example_matrix = [[1,0,1],[0,1,0],[0,1,1]]"

definition example_heap :: heap where
  "example_heap =
     \<lparr>nodes =
        [\<lparr>up = 3, down = 3, left = 2, right = 1, header = 0, rowNumber = None\<rparr>,
         \<lparr>up = 6, down = 5, left = 0, right = 2, header = 1, rowNumber = None\<rparr>,
         \<lparr>up = 7, down = 4, left = 1, right = 0, header = 2, rowNumber = None\<rparr>,
         \<lparr>up = 0, down = 0, left = 4, right = 4, header = 0, rowNumber = Some 0\<rparr>,
         \<lparr>up = 2, down = 7, left = 3, right = 3, header = 2, rowNumber = Some 0\<rparr>,
         \<lparr>up = 1, down = 6, left = 5, right = 5, header = 1, rowNumber = Some 1\<rparr>,
         \<lparr>up = 5, down = 1, left = 7, right = 7, header = 1, rowNumber = Some 2\<rparr>,
         \<lparr>up = 4, down = 2, left = 6, right = 6, header = 2, rowNumber = Some 2\<rparr>],
      headers =
        [\<lparr>head = Some 0, length_h = 1, prev = 3, next = 1\<rparr>,
         \<lparr>head = Some 1, length_h = 2, prev = 0, next = 2\<rparr>,
         \<lparr>head = Some 2, length_h = 2, prev = 1, next = 3\<rparr>,
         \<lparr>head = None, length_h = 0, prev = 2, next = 0\<rparr>]\<rparr>"

text \<open>The nodes in the vertical ring of each column of the example, from the head down.\<close>

definition example_columns :: "nat \<Rightarrow> nat list" where
  "example_columns c = [[3], [5, 6], [4, 7]] ! c"

section \<open>Rings of links\<close>

text \<open>
  \<open>chain f n xs y\<close>: the nodes \<open>xs\<close> are linked by \<open>f\<close> from \<open>n\<close> and lead to
  \<open>y\<close>. \<open>cyc f z xs\<close>: the link \<open>f\<close> leads from \<open>z\<close> through the distinct nodes
  \<open>xs\<close> back to \<open>z\<close>. A doubly linked ring is a cycle of the forward link whose
  backward link runs through the same nodes in reverse.
\<close>

fun chain :: "(nat \<Rightarrow> nat) \<Rightarrow> nat \<Rightarrow> nat list \<Rightarrow> nat \<Rightarrow> bool" where
  "chain f n [] y \<longleftrightarrow> n = y"
| "chain f n (x # xs) y \<longleftrightarrow> n = x \<and> chain f (f x) xs y"

definition cyc :: "(nat \<Rightarrow> nat) \<Rightarrow> nat \<Rightarrow> nat list \<Rightarrow> bool" where
  "cyc f z xs \<longleftrightarrow> chain f (f z) xs z \<and> distinct (z # xs)"

definition ring :: "(nat \<Rightarrow> nat) \<Rightarrow> (nat \<Rightarrow> nat) \<Rightarrow> nat \<Rightarrow> nat list \<Rightarrow> bool" where
  "ring f g z xs \<longleftrightarrow> cyc f z xs \<and> cyc g z (rev xs)"

abbreviation up_of :: "heap \<Rightarrow> nat \<Rightarrow> nat" where
  "up_of h n \<equiv> up (node_at h n)"

abbreviation down_of :: "heap \<Rightarrow> nat \<Rightarrow> nat" where
  "down_of h n \<equiv> down (node_at h n)"

abbreviation left_of :: "heap \<Rightarrow> nat \<Rightarrow> nat" where
  "left_of h n \<equiv> left (node_at h n)"

abbreviation right_of :: "heap \<Rightarrow> nat \<Rightarrow> nat" where
  "right_of h n \<equiv> right (node_at h n)"

abbreviation header_of :: "heap \<Rightarrow> nat \<Rightarrow> nat" where
  "header_of h n \<equiv> header (node_at h n)"

abbreviation row_of :: "heap \<Rightarrow> nat \<Rightarrow> nat option" where
  "row_of h n \<equiv> rowNumber (node_at h n)"

abbreviation next_of :: "heap \<Rightarrow> nat \<Rightarrow> nat" where
  "next_of h c \<equiv> next (header_at h c)"

abbreviation prev_of :: "heap \<Rightarrow> nat \<Rightarrow> nat" where
  "prev_of h c \<equiv> prev (header_at h c)"

abbreviation size_of :: "heap \<Rightarrow> nat \<Rightarrow> int" where
  "size_of h c \<equiv> length_h (header_at h c)"

section \<open>Well-formed structures\<close>

text \<open>
  \<open>links_ok\<close>: every link stays inside its arena, and the vertical links of a
  node lead to nodes of the same column (this holds for the nodes that are
  currently spliced out as well, whose links are stale).
\<close>

definition links_ok :: "heap \<Rightarrow> bool" where
  "links_ok h \<longleftrightarrow>
     (\<forall>n<length (nodes h).
        up_of h n < length (nodes h) \<and> down_of h n < length (nodes h) \<and>
        left_of h n < length (nodes h) \<and> right_of h n < length (nodes h) \<and>
        header_of h n < length (headers h) \<and>
        header_of h (up_of h n) = header_of h n \<and> header_of h (down_of h n) = header_of h n) \<and>
     (\<forall>c<length (headers h).
        prev_of h c < length (headers h) \<and> next_of h c < length (headers h))"

text \<open>
  \<open>rows_ok\<close>: the nodes of one matrix row (the nodes with its row number) form
  a doubly linked horizontal ring, and no two of them are in the same column.
\<close>

definition row_ring_ok :: "heap \<Rightarrow> nat \<Rightarrow> bool" where
  "row_ring_ok h n \<longleftrightarrow>
     (\<exists>ms. ring (right_of h) (left_of h) n ms \<and>
           set ms = {m. m < length (nodes h) \<and> m \<noteq> n \<and> row_of h m = row_of h n} \<and>
           distinct (map (header_of h) (n # ms)))"

definition rows_ok :: "heap \<Rightarrow> bool" where
  "rows_ok h \<longleftrightarrow> (\<forall>n<length (nodes h). row_of h n \<noteq> None \<longrightarrow> row_ring_ok h n)"

text \<open>
  \<open>column_ok h c ns\<close>: the vertical ring of column \<open>c\<close> leads from its head
  node through the nodes \<open>ns\<close>, which are cells of that column, and the size of
  the column is their number.
\<close>

definition column_ok :: "heap \<Rightarrow> nat \<Rightarrow> nat list \<Rightarrow> bool" where
  "column_ok h c ns \<longleftrightarrow>
     c < length (headers h) \<and>
     (\<exists>hn. head (header_at h c) = Some hn \<and> hn < length (nodes h) \<and>
           header_of h hn = c \<and> row_of h hn = None \<and>
           ring (down_of h) (up_of h) hn ns) \<and>
     (\<forall>n\<in>set ns. n < length (nodes h) \<and> header_of h n = c \<and> row_of h n \<noteq> None) \<and>
     size_of h c = int (length ns)"

text \<open>
  The invariant of the search. \<open>cs\<close> are the headers in the ring of the root,
  in ring order, and \<open>vs c\<close> the nodes in the vertical ring of such a header. A
  row with a node in the vertical ring of a linked header has all its nodes in
  the vertical rings of linked headers.
\<close>

definition search_inv :: "heap \<Rightarrow> nat \<Rightarrow> nat list \<Rightarrow> (nat \<Rightarrow> nat list) \<Rightarrow> bool" where
  "search_inv h root cs vs \<longleftrightarrow>
     links_ok h \<and> rows_ok h \<and> root < length (headers h) \<and>
     ring (next_of h) (prev_of h) root cs \<and>
     (\<forall>c\<in>set cs. column_ok h c (vs c)) \<and>
     (\<forall>c\<in>set cs. \<forall>n\<in>set (vs c). \<forall>m<length (nodes h).
        row_of h m = row_of h n \<longrightarrow> header_of h m \<in> set cs \<and> m \<in> set (vs (header_of h m)))"

definition well_formed :: "heap \<Rightarrow> nat \<Rightarrow> bool" where
  "well_formed h root \<longleftrightarrow> (\<exists>cs vs. search_inv h root cs vs)"

text \<open>The parts of a structure that the search never assigns.\<close>

definition same_shape :: "heap \<Rightarrow> heap \<Rightarrow> bool" where
  "same_shape h g \<longleftrightarrow>
     length (nodes g) = length (nodes h) \<and> length (headers g) = length (headers h) \<and>
     (\<forall>n. left_of g n = left_of h n \<and> right_of g n = right_of h n \<and>
          header_of g n = header_of h n \<and> row_of g n = row_of h n) \<and>
     (\<forall>c. head (header_at g c) = head (header_at h c))"

text \<open>
  The first two assignments of \<open>cover\<close> and the last two of \<open>uncover\<close>: the
  header leaves and rejoins the ring of headers.
\<close>

definition unlink_header :: "nat \<Rightarrow> heap \<Rightarrow> heap" where
  "unlink_header col h =
     (let h1 = set_prev (next (header_at h col)) (prev (header_at h col)) h
      in set_next (prev (header_at h1 col)) (next (header_at h1 col)) h1)"

definition relink_header :: "nat \<Rightarrow> heap \<Rightarrow> heap" where
  "relink_header col h =
     (let h2 = set_prev (next (header_at h col)) col h
      in set_next (prev (header_at h2 col)) col h2)"

text \<open>
  \<open>beside h c t\<close>: \<open>t\<close> is a well-linked structure of the shape of \<open>h\<close> in
  which the nodes of column \<open>c\<close> have the vertical links they have in \<open>h\<close>.
\<close>

definition beside :: "heap \<Rightarrow> nat \<Rightarrow> heap \<Rightarrow> bool" where
  "beside h c t \<longleftrightarrow>
     links_ok t \<and> same_shape h t \<and>
     (\<forall>n<length (nodes h). header_of h n = c \<longrightarrow>
        down_of t n = down_of h n \<and> up_of t n = up_of h n)"

text \<open>
  The rows that \<open>cover\<close> takes out of the other columns are the rows with a
  node in the covered column.
\<close>

definition hide_rows :: "heap \<Rightarrow> (nat \<Rightarrow> nat list) \<Rightarrow> nat \<Rightarrow> nat \<Rightarrow> nat list" where
  "hide_rows h vs c j = filter (\<lambda>n. row_of h n \<notin> row_of h ` set (vs c)) (vs j)"

section \<open>The matrix and the structure built from it\<close>

text \<open>
  A cell is present when the row reaches the column and the value there is
  truthy. \<open>placed M i j c\<close> are the rows with a node in column \<open>c\<close> once the
  rows before \<open>i\<close> and the columns before \<open>j\<close> of row \<open>i\<close> have been added.
\<close>

definition present :: "int list list \<Rightarrow> nat \<Rightarrow> nat \<Rightarrow> bool" where
  "present M i c \<longleftrightarrow> c < length (M ! i) \<and> M ! i ! c \<noteq> 0"

definition placed :: "int list list \<Rightarrow> nat \<Rightarrow> nat \<Rightarrow> nat \<Rightarrow> nat list" where
  "placed M i j c =
     filter (\<lambda>r. present M r c) [0..<i] @ (if c < j \<and> present M i c then [i] else [])"

text \<open>
  The invariant of the second loop of \<open>solve\<close>, before the cell in column \<open>j\<close>
  of row \<open>i\<close>: every column holds the nodes placed so far, the rows before
  \<open>i\<close> are closed rings, and the nodes of row \<open>i\<close> form a ring that ends at
  \<open>left\<close>.
\<close>

definition building ::
  "int list list \<Rightarrow> nat \<Rightarrow> heap \<Rightarrow> nat \<Rightarrow> nat \<Rightarrow> nat option \<Rightarrow> (nat \<Rightarrow> nat list) \<Rightarrow> bool" where
  "building M nc h i j lft vs \<longleftrightarrow>
     links_ok h \<and> length (headers h) = nc \<and>
     ring (next_of h) (prev_of h) 0 [1..<nc] \<and>
     (\<forall>c<nc. column_ok h c (vs c) \<and> map (row_of h) (vs c) = map Some (placed M i j c)) \<and>
     (\<forall>n<length (nodes h). row_of h n \<noteq> None \<longrightarrow>
        header_of h n < nc \<and> n \<in> set (vs (header_of h n))) \<and>
     (\<forall>n<length (nodes h). \<forall>r<i. row_of h n = Some r \<longrightarrow> row_ring_ok h n) \<and>
     (case lft of
        None \<Rightarrow> \<forall>n<length (nodes h). row_of h n \<noteq> Some i
      | Some ln \<Rightarrow>
          (\<exists>f xs. ring (right_of h) (left_of h) f xs \<and> last (f # xs) = ln \<and>
                  set (f # xs) = {m. m < length (nodes h) \<and> row_of h m = Some i} \<and>
                  distinct (map (header_of h) (f # xs))))"

section \<open>Evaluating the model on concrete inputs\<close>

text \<open>
  Rewriting in the order of execution: a callback is entered only once it is
  applied to a state, and the continuation of a call only once the call has
  returned.
\<close>

lemmas heap_defs = node_at_def header_at_def set_up_def set_down_def set_left_def set_right_def
  set_rowNumber_def set_head_def set_length_def set_prev_def set_next_def

lemma and_then_cong: "m = m' \<Longrightarrow> and_then m f = and_then m' f"
  by simp

lemma on_linked_cong: "s = s' \<Longrightarrow> on_linked f s = on_linked f s'"
  by simp

lemma try_row_cong:
  "fuel = fuel' \<Longrightarrow> s = s' \<Longrightarrow> try_row f fuel k n s = try_row f fuel' k n s'"
  by simp

lemma eachNode_cong:
  "fuel = fuel' \<Longrightarrow> node = node' \<Longrightarrow> s = s' \<Longrightarrow>
   eachNode fuel hp node d fn s = eachNode fuel' hp node' d fn s'"
  by simp

lemma eachNode_from_cong:
  "fuel = fuel' \<Longrightarrow> node = node' \<Longrightarrow> n = n' \<Longrightarrow> s = s' \<Longrightarrow>
   eachNode_from fuel hp node d fn n s = eachNode_from fuel' hp node' d fn n' s'"
  by simp

lemma eachHeader_cong:
  "fuel = fuel' \<Longrightarrow> node = node' \<Longrightarrow> s = s' \<Longrightarrow>
   eachHeader fuel hp node d fn s = eachHeader fuel' hp node' d fn s'"
  by simp

lemma eachHeader_from_cong:
  "fuel = fuel' \<Longrightarrow> node = node' \<Longrightarrow> n = n' \<Longrightarrow> s = s' \<Longrightarrow>
   eachHeader_from fuel hp node d fn n s = eachHeader_from fuel' hp node' d fn n' s'"
  by simp

lemmas eval_congs = let_weak_cong and_then_cong on_linked_cong eachNode_cong eachNode_from_cong
  eachHeader_cong eachHeader_from_cong try_row_cong

lemma eachNode_from_pos:
  "0 < fuel \<Longrightarrow> eachNode_from fuel hp node d fn n s =
     (if n = node then Returns s
      else and_then (fn n s)
             (\<lambda>s'. eachNode_from (fuel - 1) hp node d fn (node_field d (node_at (hp s') n)) s'))"
  by (cases fuel) simp_all

lemma eachHeader_from_pos:
  "0 < fuel \<Longrightarrow> eachHeader_from fuel hp hdr d fn h s =
     (if h = hdr then Returns s
      else and_then (fn h s)
             (\<lambda>s'. eachHeader_from (fuel - 1) hp hdr d fn (header_field d (header_at (hp s') h)) s'))"
  by (cases fuel) simp_all

lemma recurse_pos:
  "0 < fuel \<Longrightarrow> recurse fuel root mx k s =
     (if mx \<noteq> 0 \<and> length (solutions s) = mx then Returns s
      else if next (header_at (linked s) root) = root
      then Returns (s\<lparr>solutions := solutions s @ [partials s]\<rparr>)
      else
        and_then (eachHeader (fuel - 1) fst root Next choose_header
                    (linked s, \<lparr>best = None, smallest = None\<rparr>))
          (\<lambda>chosen.
             case best (snd chosen) of
               None \<Rightarrow> Returns s
             | Some b \<Rightarrow>
                 if length_h (header_at (linked s) b) > 0
                 then
                   and_then (on_linked (cover (fuel - 1) b) s)
                     (\<lambda>s1. case head (header_at (linked s1) b) of
                              None \<Rightarrow> Throws TypeError
                            | Some hnode \<Rightarrow>
                                and_then
                                  (eachNode (fuel - 1) linked hnode Down
                                     (try_row (recurse (fuel - 1) root mx (k + 1)) (fuel - 1) k) s1)
                                  (on_linked (uncover (fuel - 1) b)))
                 else Returns s))"
  by (cases fuel) (simp_all only: recurse.simps diff_Suc_1 nat.simps)

lemmas eval_rules = heap_defs createNode_def cover_colNode_def uncover_colNode_def cover_def
  uncover_def eachNode_def eachHeader_def eachNode_from_pos eachHeader_from_pos on_linked_def
  choose_header_def array_set_def add_column_def add_cell_def add_root_def build_def solve_def
  Let_def try_row_def recurse_pos

section \<open>Outcomes\<close>

lemma error_is_TypeError: "(e::error) = TypeError"
  by (cases e) simp

lemma and_then_Returns_iff:
  "and_then m f = Returns y \<longleftrightarrow> (\<exists>x. m = Returns x \<and> f x = Returns y)"
  by (cases m) simp_all

lemma and_then_finished: "and_then m f \<noteq> NoFuel \<Longrightarrow> m \<noteq> NoFuel"
  by (cases m) simp_all

section \<open>More fuel does not change a finished run\<close>

lemma eachNode_from_more_fuel:
  assumes fn: "\<And>x t. fn x t \<noteq> NoFuel \<Longrightarrow> fn' x t = fn x t"
  shows "eachNode_from f hp node d fn n s \<noteq> NoFuel \<Longrightarrow> f \<le> f' \<Longrightarrow>
         eachNode_from f' hp node d fn' n s = eachNode_from f hp node d fn n s"
proof (induction f arbitrary: f' n s)
  case 0
  then show ?case by simp
next
  case (Suc f)
  from Suc.prems(2) obtain g where g: "f' = Suc g" "f \<le> g"
    by (cases f') auto
  show ?case
  proof (cases "n = node")
    case True
    then show ?thesis by (simp add: g)
  next
    case False
    with Suc.prems(1) have fin: "fn n s \<noteq> NoFuel"
      by (auto dest: and_then_finished)
    show ?thesis
    proof (cases "fn n s")
      case (Returns t)
      with Suc.prems(1) False
      have "eachNode_from f hp node d fn (node_field d (node_at (hp t) n)) t \<noteq> NoFuel"
        by simp
      from Suc.IH [OF this g(2)] show ?thesis
        using False Returns fn [OF fin] by (simp add: g)
    next
      case (Throws e)
      then show ?thesis using False fn [OF fin] by (simp add: g)
    next
      case NoFuel
      with fin show ?thesis by simp
    qed
  qed
qed

lemma eachNode_more_fuel:
  assumes "\<And>x t. fn x t \<noteq> NoFuel \<Longrightarrow> fn' x t = fn x t"
    and "eachNode f hp node d fn s \<noteq> NoFuel" and "f \<le> f'"
  shows "eachNode f' hp node d fn' s = eachNode f hp node d fn s"
  using assms unfolding eachNode_def by (rule eachNode_from_more_fuel)

lemma eachHeader_from_more_fuel:
  assumes fn: "\<And>x t. fn x t \<noteq> NoFuel \<Longrightarrow> fn' x t = fn x t"
  shows "eachHeader_from f hp node d fn n s \<noteq> NoFuel \<Longrightarrow> f \<le> f' \<Longrightarrow>
         eachHeader_from f' hp node d fn' n s = eachHeader_from f hp node d fn n s"
proof (induction f arbitrary: f' n s)
  case 0
  then show ?case by simp
next
  case (Suc f)
  from Suc.prems(2) obtain g where g: "f' = Suc g" "f \<le> g"
    by (cases f') auto
  show ?case
  proof (cases "n = node")
    case True
    then show ?thesis by (simp add: g)
  next
    case False
    with Suc.prems(1) have fin: "fn n s \<noteq> NoFuel"
      by (auto dest: and_then_finished)
    show ?thesis
    proof (cases "fn n s")
      case (Returns t)
      with Suc.prems(1) False
      have "eachHeader_from f hp node d fn (header_field d (header_at (hp t) n)) t \<noteq> NoFuel"
        by simp
      from Suc.IH [OF this g(2)] show ?thesis
        using False Returns fn [OF fin] by (simp add: g)
    next
      case (Throws e)
      then show ?thesis using False fn [OF fin] by (simp add: g)
    next
      case NoFuel
      with fin show ?thesis by simp
    qed
  qed
qed

lemma eachHeader_more_fuel:
  assumes "\<And>x t. fn x t \<noteq> NoFuel \<Longrightarrow> fn' x t = fn x t"
    and "eachHeader f hp node d fn s \<noteq> NoFuel" and "f \<le> f'"
  shows "eachHeader f' hp node d fn' s = eachHeader f hp node d fn s"
  using assms unfolding eachHeader_def by (rule eachHeader_from_more_fuel)

lemma and_then_more_fuel:
  assumes "and_then m k \<noteq> NoFuel"
    and "m \<noteq> NoFuel \<Longrightarrow> m' = m"
    and "\<And>x. m = Returns x \<Longrightarrow> k x \<noteq> NoFuel \<Longrightarrow> k' x = k x"
  shows "and_then m' k' = and_then m k"
  using assms by (cases m) simp_all

lemma cover_more_fuel:
  assumes "cover f c h \<noteq> NoFuel" and "f \<le> f'"
  shows "cover f' c h = cover f c h"
proof (cases "head (header_at (set_next (prev (header_at (set_prev (next (header_at h c)) (prev (header_at h c)) h) c))
          (next (header_at (set_prev (next (header_at h c)) (prev (header_at h c)) h) c))
          (set_prev (next (header_at h c)) (prev (header_at h c)) h)) c)")
  case None
  then show ?thesis by (simp add: cover_def Let_def)
next
  case (Some hn)
  have inner: "\<And>x t. eachNode f id x Right (\<lambda>colNode g. Returns (cover_colNode colNode g)) t \<noteq> NoFuel \<Longrightarrow>
      eachNode f' id x Right (\<lambda>colNode g. Returns (cover_colNode colNode g)) t
      = eachNode f id x Right (\<lambda>colNode g. Returns (cover_colNode colNode g)) t"
    by (rule eachNode_more_fuel [OF _ _ assms(2)]) auto
  show ?thesis
    using assms(1) Some
    by (simp add: cover_def Let_def eachNode_more_fuel [OF inner _ assms(2)])
qed

lemma uncover_more_fuel:
  assumes "uncover f c h \<noteq> NoFuel" and "f \<le> f'"
  shows "uncover f' c h = uncover f c h"
proof (cases "head (header_at h c)")
  case None
  then show ?thesis by (simp add: uncover_def)
next
  case (Some hn)
  have inner: "\<And>x t. eachNode f id x Left (\<lambda>colNode g. Returns (uncover_colNode colNode g)) t \<noteq> NoFuel \<Longrightarrow>
      eachNode f' id x Left (\<lambda>colNode g. Returns (uncover_colNode colNode g)) t
      = eachNode f id x Left (\<lambda>colNode g. Returns (uncover_colNode colNode g)) t"
    by (rule eachNode_more_fuel [OF _ _ assms(2)]) auto
  from assms(1) Some have "eachNode f id hn Up
     (\<lambda>rowNode. eachNode f id rowNode Left (\<lambda>colNode g. Returns (uncover_colNode colNode g))) h \<noteq> NoFuel"
    by (auto simp: uncover_def dest: and_then_finished)
  from eachNode_more_fuel [OF inner this assms(2)] show ?thesis
    using Some by (simp add: uncover_def)
qed

lemma on_linked_more_fuel:
  assumes "on_linked g s \<noteq> NoFuel" and "g (linked s) \<noteq> NoFuel \<Longrightarrow> g' (linked s) = g (linked s)"
  shows "on_linked g' s = on_linked g s"
  using assms unfolding on_linked_def by (auto dest: and_then_finished)

lemma try_row_more_fuel:
  assumes deeper: "\<And>t. deeper t \<noteq> NoFuel \<Longrightarrow> deeper' t = deeper t"
    and fin: "try_row deeper f k x t \<noteq> NoFuel" and le: "f \<le> f'"
  shows "try_row deeper' f' k x t = try_row deeper f k x t"
proof -
  have c: "\<And>y u. on_linked (\<lambda>g. cover f (header (node_at g y)) g) u \<noteq> NoFuel \<Longrightarrow>
      on_linked (\<lambda>g. cover f' (header (node_at g y)) g) u = on_linked (\<lambda>g. cover f (header (node_at g y)) g) u"
    by (rule on_linked_more_fuel) (auto intro: cover_more_fuel [OF _ le])
  have u: "\<And>y u. on_linked (\<lambda>g. uncover f (header (node_at g y)) g) u \<noteq> NoFuel \<Longrightarrow>
      on_linked (\<lambda>g. uncover f' (header (node_at g y)) g) u = on_linked (\<lambda>g. uncover f (header (node_at g y)) g) u"
    by (rule on_linked_more_fuel) (auto intro: uncover_more_fuel [OF _ le])
  let ?t0 = "t\<lparr>partials := array_set (partials t) k (rowNumber (node_at (linked t) x))\<rparr>"
  show ?thesis
    unfolding try_row_def
  proof (rule and_then_more_fuel)
    show "and_then (eachNode f linked x Right
            (\<lambda>colNode. on_linked (\<lambda>g. cover f (header (node_at g colNode)) g)) ?t0)
          (\<lambda>t1. and_then (deeper t1)
             (\<lambda>t2. eachNode f linked x Left
                (\<lambda>colNode. on_linked (\<lambda>g. uncover f (header (node_at g colNode)) g)) t2)) \<noteq> NoFuel"
      using fin by (simp add: try_row_def)
    show "eachNode f linked x Right
            (\<lambda>colNode. on_linked (\<lambda>g. cover f (header (node_at g colNode)) g)) ?t0 \<noteq> NoFuel \<Longrightarrow>
          eachNode f' linked x Right
            (\<lambda>colNode. on_linked (\<lambda>g. cover f' (header (node_at g colNode)) g)) ?t0
          = eachNode f linked x Right
            (\<lambda>colNode. on_linked (\<lambda>g. cover f (header (node_at g colNode)) g)) ?t0"
      by (rule eachNode_more_fuel [OF c _ le])
    fix t1
    assume "and_then (deeper t1)
             (\<lambda>t2. eachNode f linked x Left
                (\<lambda>colNode. on_linked (\<lambda>g. uncover f (header (node_at g colNode)) g)) t2) \<noteq> NoFuel"
    then show "and_then (deeper' t1)
             (\<lambda>t2. eachNode f' linked x Left
                (\<lambda>colNode. on_linked (\<lambda>g. uncover f' (header (node_at g colNode)) g)) t2)
          = and_then (deeper t1)
             (\<lambda>t2. eachNode f linked x Left
                (\<lambda>colNode. on_linked (\<lambda>g. uncover f (header (node_at g colNode)) g)) t2)"
    proof (rule and_then_more_fuel)
      show "deeper t1 \<noteq> NoFuel \<Longrightarrow> deeper' t1 = deeper t1"
        by (rule deeper)
      fix t2
      show "eachNode f linked x Left
                (\<lambda>colNode. on_linked (\<lambda>g. uncover f (header (node_at g colNode)) g)) t2 \<noteq> NoFuel \<Longrightarrow>
          eachNode f' linked x Left
                (\<lambda>colNode. on_linked (\<lambda>g. uncover f' (header (node_at g colNode)) g)) t2
          = eachNode f linked x Left
                (\<lambda>colNode. on_linked (\<lambda>g. uncover f (header (node_at g colNode)) g)) t2"
        by (rule eachNode_more_fuel [OF u _ le])
    qed
  qed
qed

lemma recurse_more_fuel:
  "recurse f root mx k s \<noteq> NoFuel \<Longrightarrow> f \<le> f' \<Longrightarrow> recurse f' root mx k s = recurse f root mx k s"
proof (induction f arbitrary: f' k s)
  case 0
  then show ?case by simp
next
  case (Suc f)
  from Suc.prems(2) obtain g where g: "f' = Suc g" "f \<le> g"
    by (cases f') auto
  have deeper: "\<And>t. recurse f root mx (k + 1) t \<noteq> NoFuel \<Longrightarrow>
      recurse g root mx (k + 1) t = recurse f root mx (k + 1) t"
    by (rule Suc.IH [OF _ g(2)])
  have row: "\<And>x t. try_row (recurse f root mx (k + 1)) f k x t \<noteq> NoFuel \<Longrightarrow>
      try_row (recurse g root mx (k + 1)) g k x t = try_row (recurse f root mx (k + 1)) f k x t"
    by (rule try_row_more_fuel [OF deeper _ g(2)])
  have ch: "\<And>x t. choose_header x t \<noteq> NoFuel \<Longrightarrow> choose_header x t = choose_header x t"
    by simp
  show ?case
  proof (cases "(mx \<noteq> 0 \<and> length (solutions s) = mx) \<or> next (header_at (linked s) root) = root")
    case True
    then show ?thesis by (auto simp: g)
  next
    case False
    then have nc: "\<not> (mx \<noteq> 0 \<and> length (solutions s) = mx)"
      and nr: "next (header_at (linked s) root) \<noteq> root"
      by auto
    let ?loop = "\<lambda>f. eachHeader f fst root Next choose_header (linked s, \<lparr>best = None, smallest = None\<rparr>)"
    have unf: "\<And>f. recurse (Suc f) root mx k s =
        and_then (?loop f)
          (\<lambda>chosen.
             case best (snd chosen) of
               None \<Rightarrow> Returns s
             | Some b \<Rightarrow>
                 if length_h (header_at (linked s) b) > 0
                 then
                   and_then (on_linked (cover f b) s)
                     (\<lambda>s1. case head (header_at (linked s1) b) of
                              None \<Rightarrow> Throws TypeError
                            | Some hnode \<Rightarrow>
                                and_then
                                  (eachNode f linked hnode Down
                                     (try_row (recurse f root mx (k + 1)) f k) s1)
                                  (on_linked (uncover f b)))
                 else Returns s)"
      using nc nr by (simp only: recurse.simps if_False)
    from Suc.prems(1) have fin: "?loop f \<noteq> NoFuel"
      unfolding unf by (rule and_then_finished)
    have loop: "?loop g = ?loop f"
      by (rule eachHeader_more_fuel [OF ch fin g(2)])
    show ?thesis
    proof (cases "?loop f")
      case (Returns chosen)
      show ?thesis
      proof (cases "best (snd chosen)")
        case None
        then show ?thesis using Returns loop by (simp add: g unf del: recurse.simps)
      next
        case (Some b)
        show ?thesis
        proof (cases "0 < length_h (header_at (linked s) b)")
          case pos: True
          let ?rest = "\<lambda>f s1. case head (header_at (linked s1) b) of
                              None \<Rightarrow> Throws TypeError
                            | Some hnode \<Rightarrow>
                                and_then
                                  (eachNode f linked hnode Down
                                     (try_row (recurse f root mx (k + 1)) f k) s1)
                                  (on_linked (uncover f b))"
          have eq: "recurse (Suc f) root mx k s = and_then (on_linked (cover f b) s) (?rest f)"
            "recurse (Suc g) root mx k s = and_then (on_linked (cover g b) s) (?rest g)"
            using Returns loop Some pos by (simp_all add: unf del: recurse.simps)
          have "and_then (on_linked (cover g b) s) (?rest g) = and_then (on_linked (cover f b) s) (?rest f)"
          proof (rule and_then_more_fuel)
            show "and_then (on_linked (cover f b) s) (?rest f) \<noteq> NoFuel"
              using Suc.prems(1) eq by simp
            show "on_linked (cover f b) s \<noteq> NoFuel \<Longrightarrow> on_linked (cover g b) s = on_linked (cover f b) s"
              by (rule on_linked_more_fuel) (auto intro: cover_more_fuel [OF _ g(2)])
            fix s1
            assume "?rest f s1 \<noteq> NoFuel"
            show "?rest g s1 = ?rest f s1"
            proof (cases "head (header_at (linked s1) b)")
              case None
              then show ?thesis by simp
            next
              case (Some hn)
              have "and_then (eachNode g linked hn Down (try_row (recurse g root mx (k + 1)) g k) s1)
                      (on_linked (uncover g b))
                  = and_then (eachNode f linked hn Down (try_row (recurse f root mx (k + 1)) f k) s1)
                      (on_linked (uncover f b))"
              proof (rule and_then_more_fuel)
                show "and_then (eachNode f linked hn Down (try_row (recurse f root mx (k + 1)) f k) s1)
                      (on_linked (uncover f b)) \<noteq> NoFuel"
                  using \<open>?rest f s1 \<noteq> NoFuel\<close> Some by simp
                show "eachNode f linked hn Down (try_row (recurse f root mx (k + 1)) f k) s1 \<noteq> NoFuel \<Longrightarrow>
                  eachNode g linked hn Down (try_row (recurse g root mx (k + 1)) g k) s1 =
                  eachNode f linked hn Down (try_row (recurse f root mx (k + 1)) f k) s1"
                  by (rule eachNode_more_fuel [OF row _ g(2)])
                fix s2
                assume "on_linked (uncover f b) s2 \<noteq> NoFuel"
                then show "on_linked (uncover g b) s2 = on_linked (uncover f b) s2"
                  by (rule on_linked_more_fuel) (auto intro: uncover_more_fuel [OF _ g(2)])
              qed
              then show ?thesis using Some by simp
            qed
          qed
          then show ?thesis using eq by (simp only: g)
        next
          case False
          then show ?thesis using Returns loop Some by (simp add: g unf del: recurse.simps)
        qed
      qed
    next
      case (Throws e)
      then show ?thesis using loop by (simp add: g unf del: recurse.simps)
    next
      case NoFuel
      with fin show ?thesis by simp
    qed
  qed
qed

lemma solve_more_fuel:
  assumes "solve f matrix mx \<noteq> NoFuel" and "f \<le> f'"
  shows "solve f' matrix mx = solve f matrix mx"
proof (cases "build matrix")
  case (Returns rh)
  obtain root h where rh: "rh = (root, h)" by (cases rh)
  from assms(1) Returns rh
  have "recurse f root (case mx of None \<Rightarrow> 0 | Some m \<Rightarrow> m) 0 \<lparr>linked = h, solutions = [], partials = []\<rparr> \<noteq> NoFuel"
    by (auto simp: solve_def dest: and_then_finished)
  from recurse_more_fuel [OF this assms(2)] show ?thesis
    using Returns rh by (simp add: solve_def)
qed (simp_all add: solve_def)

section \<open>Loops over a known ring\<close>

lemma run_list_append:
  "run_list fn (xs @ ys) s = and_then (run_list fn xs s) (run_list fn ys)"
proof (induction xs arbitrary: s)
  case (Cons x xs)
  show ?case by (cases "fn x s") (simp_all add: Cons.IH)
qed simp

lemma run_list_pure: "run_list (\<lambda>x t. Returns (g x t)) xs s = Returns (fold g xs s)"
  by (induction xs arbitrary: s) simp_all

lemma walk_unique: "walk f z n xs \<Longrightarrow> walk f z n ys \<Longrightarrow> xs = ys"
proof (induction xs arbitrary: n ys)
  case Nil
  then show ?case by (cases ys) auto
next
  case (Cons x xs)
  then show ?case by (cases ys) auto
qed

lemma walk_cong:
  "(\<And>x. x \<in> set xs \<Longrightarrow> f x = g x) \<Longrightarrow> walk f z n xs = walk g z n xs"
  by (induction xs arbitrary: n) auto

lemma walk_stop_notin: "walk f z n xs \<Longrightarrow> z \<notin> set xs"
  by (induction xs arbitrary: n) auto

text \<open>
  When the links along a ring stay as they are while the loop runs (\<open>I\<close> is
  kept by the callback and fixes them), the loop is the callback on each node of
  the ring in order, provided the fuel outlasts the ring.
\<close>

lemma eachNode_from_run_list:
  assumes "walk nxt node n xs" and "length xs < fuel" and "I s"
    and "\<And>x t t'. x \<in> set xs \<Longrightarrow> I t \<Longrightarrow> fn x t = Returns t' \<Longrightarrow> I t'"
    and "\<And>x t. x \<in> set xs \<Longrightarrow> I t \<Longrightarrow> node_field d (node_at (hp t) x) = nxt x"
  shows "eachNode_from fuel hp node d fn n s = run_list fn xs s"
  using assms
proof (induction xs arbitrary: fuel n s)
  case Nil
  then show ?case by (cases fuel) auto
next
  case (Cons x xs)
  from Cons.prems(2) obtain g where g: "fuel = Suc g" "length xs < g"
    by (cases fuel) auto
  from Cons.prems(1) have n: "n = x" "x \<noteq> node" "walk nxt node (nxt x) xs"
    by auto
  show ?case
  proof (cases "fn x s")
    case (Returns t)
    have It: "I t"
      using Cons.prems(4) [OF _ Cons.prems(3) Returns] by simp
    have "eachNode_from g hp node d fn (nxt x) t = run_list fn xs t"
      by (rule Cons.IH [OF n(3) g(2) It]) (auto intro: Cons.prems(4,5))
    moreover have "node_field d (node_at (hp t) x) = nxt x"
      using Cons.prems(5) [OF _ It] by simp
    ultimately show ?thesis
      using n Returns by (simp add: g)
  qed (use n in \<open>simp_all add: g\<close>)
qed

lemma eachHeader_from_run_list:
  assumes "walk nxt hdr n xs" and "length xs < fuel" and "I s"
    and "\<And>x t t'. x \<in> set xs \<Longrightarrow> I t \<Longrightarrow> fn x t = Returns t' \<Longrightarrow> I t'"
    and "\<And>x t. x \<in> set xs \<Longrightarrow> I t \<Longrightarrow> header_field d (header_at (hp t) x) = nxt x"
  shows "eachHeader_from fuel hp hdr d fn n s = run_list fn xs s"
  using assms
proof (induction xs arbitrary: fuel n s)
  case Nil
  then show ?case by (cases fuel) auto
next
  case (Cons x xs)
  from Cons.prems(2) obtain g where g: "fuel = Suc g" "length xs < g"
    by (cases fuel) auto
  from Cons.prems(1) have n: "n = x" "x \<noteq> hdr" "walk nxt hdr (nxt x) xs"
    by auto
  show ?case
  proof (cases "fn x s")
    case (Returns t)
    have It: "I t"
      using Cons.prems(4) [OF _ Cons.prems(3) Returns] by simp
    have "eachHeader_from g hp hdr d fn (nxt x) t = run_list fn xs t"
      by (rule Cons.IH [OF n(3) g(2) It]) (auto intro: Cons.prems(4,5))
    moreover have "header_field d (header_at (hp t) x) = nxt x"
      using Cons.prems(5) [OF _ It] by simp
    ultimately show ?thesis
      using n Returns by (simp add: g)
  qed (use n in \<open>simp_all add: g\<close>)
qed

section \<open>Choosing the header\<close>

text \<open>The header loop of \<open>recurse\<close> on a known ring: a fold that keeps the structure.\<close>

lemma choose_header_run:
  "\<exists>c. run_list choose_header hs (h, c0) = Returns (h, c) \<and>
       c = fold (\<lambda>x c. if best c = None \<or> (case smallest c of None \<Rightarrow> False
                                | Some m \<Rightarrow> length_h (header_at h x) < m)
                         then \<lparr>best = Some x, smallest = Some (length_h (header_at h x))\<rparr> else c) hs c0"
  by (induction hs arbitrary: c0) (simp_all add: choose_header_def)

lemma choose_fold_first_min:
  fixes sz :: "nat \<Rightarrow> int"
  assumes "hs \<noteq> []"
  shows "\<exists>i<length hs.
      fold (\<lambda>x c. if best c = None \<or> (case smallest c of None \<Rightarrow> False | Some m \<Rightarrow> sz x < m)
                   then \<lparr>best = Some x, smallest = Some (sz x)\<rparr> else c) hs
        \<lparr>best = None, smallest = None\<rparr>
      = \<lparr>best = Some (hs ! i), smallest = Some (sz (hs ! i))\<rparr>
      \<and> (\<forall>j<length hs. sz (hs ! i) \<le> sz (hs ! j))
      \<and> (\<forall>j<i. sz (hs ! i) < sz (hs ! j))"
  using assms
proof (induction hs rule: rev_induct)
  case Nil
  then show ?case by simp
next
  case (snoc x hs)
  let ?step = "\<lambda>x c. if best c = None \<or> (case smallest c of None \<Rightarrow> False | Some m \<Rightarrow> sz x < m)
                   then \<lparr>best = Some x, smallest = Some (sz x)\<rparr> else c"
  show ?case
  proof (cases "hs = []")
    case True
    then show ?thesis by simp
  next
    case False
    from snoc.IH [OF False] obtain i where i: "i < length hs"
      "fold ?step hs \<lparr>best = None, smallest = None\<rparr> = \<lparr>best = Some (hs ! i), smallest = Some (sz (hs ! i))\<rparr>"
      "\<forall>j<length hs. sz (hs ! i) \<le> sz (hs ! j)" "\<forall>j<i. sz (hs ! i) < sz (hs ! j)"
      by blast
    show ?thesis
    proof (cases "sz x < sz (hs ! i)")
      case True
      have "\<forall>j<length (hs @ [x]). sz x \<le> sz ((hs @ [x]) ! j)"
        using True i(3) by (auto simp: nth_append less_Suc_eq)
      moreover have "\<forall>j<length hs. sz x < sz ((hs @ [x]) ! j)"
        using True i(3) by (auto simp: nth_append)
      ultimately show ?thesis
        using True i(2) by (intro exI [of _ "length hs"]) simp
    next
      case False
      have "\<forall>j<length (hs @ [x]). sz (hs ! i) \<le> sz ((hs @ [x]) ! j)"
        using False i(3) by (auto simp: nth_append less_Suc_eq)
      then show ?thesis
        using False i by (intro exI [of _ i]) (simp add: nth_append)
    qed
  qed
qed

lemma build_example: "build example_matrix = Returns (3, example_heap)"
  by (simp add: example_matrix_def example_heap_def eval_rules cong: eval_congs)

section \<open>Inputs without columns\<close>

lemma add_cell_finished: "add_cell cols r v c st \<noteq> NoFuel"
  by (simp add: add_cell_def Let_def split: option.splits prod.splits)

lemma add_cells_finished: "add_cells cols r vs c st \<noteq> NoFuel"
proof (induction vs arbitrary: c st)
  case (Cons v vs)
  show ?case
    using add_cell_finished [of cols r v c st] Cons.IH
    by (cases "add_cell cols r v c st") simp_all
qed simp

lemma add_rows_finished: "add_rows cols rows r h \<noteq> NoFuel"
proof (induction rows arbitrary: r h)
  case (Cons row rows)
  show ?case
    using add_cells_finished [of cols r row 0 "(h, None)"] Cons.IH
    by (cases "add_cells cols r row 0 (h, None)") simp_all
qed simp

text \<open>
  C10. With no rows, \<open>matrix[0]\<close> is undefined and reading its length throws;
  with an empty first row no column is created, and \<open>solve\<close> throws when it
  reads a field of \<open>columns[0]\<close> (or already of \<open>columns[col]\<close> for a nonzero
  cell of a later row). In both cases \<open>solve\<close> throws a TypeError, whatever the
  fuel and the options: it neither returns the empty solution nor reports an
  error of its own.
\<close>

theorem solve_throws_without_columns:
  "solve fuel [] maxSolutions = Throws TypeError \<and>
   solve fuel ([] # rows) maxSolutions = Throws TypeError"
proof
  show "solve fuel [] maxSolutions = Throws TypeError"
    by (simp add: solve_def build_def)
  have "and_then (add_rows [] ([] # rows) 0 \<lparr>nodes = [], headers = []\<rparr>) (add_root [])
      = Throws TypeError"
    using add_rows_finished [of "[]" "[] # rows" 0 "\<lparr>nodes = [], headers = []\<rparr>"]
    by (cases "add_rows [] ([] # rows) 0 \<lparr>nodes = [], headers = []\<rparr>")
       (simp_all add: add_root_def error_is_TypeError)
  then show "solve fuel ([] # rows) maxSolutions = Throws TypeError"
    by (simp add: solve_def build_def del: add_rows.simps)
qed

text \<open>
  C5. In an invocation of \<open>recurse\<close> whose header ring \<open>hs\<close> (the walk along
  \<open>next\<close> from the root back to the root) is not empty, the header loop ends
  with \<open>best\<close> the first header of the ring, in ring order, among those of the
  smallest size. If the size of that header is 0 the invocation returns the
  state as it was: nothing is covered, nothing is added to the solutions and
  there is no recursive call. Otherwise (and unless the cap is already met) the
  invocation goes on by covering exactly that header.
\<close>

theorem recurse_chooses_smallest_header:
  assumes "header_ring (linked s) root hs" and "hs \<noteq> []" and "length hs < fuel"
  shows "\<exists>i<length hs.
      eachHeader fuel fst root Next choose_header (linked s, \<lparr>best = None, smallest = None\<rparr>)
        = Returns (linked s, \<lparr>best = Some (hs ! i),
                               smallest = Some (length_h (header_at (linked s) (hs ! i)))\<rparr>)
      \<and> (\<forall>j<length hs. length_h (header_at (linked s) (hs ! i))
                          \<le> length_h (header_at (linked s) (hs ! j)))
      \<and> (\<forall>j<i. length_h (header_at (linked s) (hs ! i))
                  < length_h (header_at (linked s) (hs ! j)))
      \<and> (length_h (header_at (linked s) (hs ! i)) = 0 \<longrightarrow>
           recurse (Suc fuel) root mx k s = Returns s)
      \<and> (\<not> (mx \<noteq> 0 \<and> length (solutions s) = mx) \<longrightarrow>
           0 < length_h (header_at (linked s) (hs ! i)) \<longrightarrow>
           recurse (Suc fuel) root mx k s =
             and_then (on_linked (cover fuel (hs ! i)) s)
               (\<lambda>s1. case head (header_at (linked s1) (hs ! i)) of
                        None \<Rightarrow> Throws TypeError
                      | Some hnode \<Rightarrow>
                          and_then
                            (eachNode fuel linked hnode Down
                               (try_row (recurse fuel root mx (k + 1)) fuel k) s1)
                            (on_linked (uncover fuel (hs ! i)))))"
proof -
  let ?h = "linked s"
  let ?sz = "\<lambda>x. length_h (header_at ?h x)"
  let ?init = "\<lparr>best = None, smallest = None\<rparr>"
  from assms(1) have w: "walk (\<lambda>c. next (header_at ?h c)) root (next (header_at ?h root)) hs"
    by (simp add: header_ring_def)
  with assms(2) have nonempty: "next (header_at ?h root) \<noteq> root"
    by (cases hs) auto
  have "eachHeader_from fuel fst root Next choose_header (next (header_at ?h root)) (?h, ?init)
      = run_list choose_header hs (?h, ?init)"
  proof (rule eachHeader_from_run_list [where I = "\<lambda>t. fst t = ?h", OF w assms(3)])
    fix x and t t' :: "heap \<times> choice"
    assume "fst t = ?h" "choose_header x t = Returns t'"
    then show "fst t' = ?h"
      by (auto simp: choose_header_def Let_def split: if_splits)
  qed simp_all
  then have loop: "eachHeader fuel fst root Next choose_header (?h, ?init)
      = run_list choose_header hs (?h, ?init)"
    by (simp add: eachHeader_def)
  from choose_fold_first_min [OF assms(2), of ?sz] obtain i where i: "i < length hs"
    "fold (\<lambda>x c. if best c = None \<or> (case smallest c of None \<Rightarrow> False | Some m \<Rightarrow> ?sz x < m)
                  then \<lparr>best = Some x, smallest = Some (?sz x)\<rparr> else c) hs ?init
       = \<lparr>best = Some (hs ! i), smallest = Some (?sz (hs ! i))\<rparr>"
    "\<forall>j<length hs. ?sz (hs ! i) \<le> ?sz (hs ! j)" "\<forall>j<i. ?sz (hs ! i) < ?sz (hs ! j)"
    by blast
  from choose_header_run [of hs ?h ?init] i(2) loop
  have chosen: "eachHeader fuel fst root Next choose_header (?h, ?init)
      = Returns (?h, \<lparr>best = Some (hs ! i), smallest = Some (?sz (hs ! i))\<rparr>)"
    by auto
  have zero: "recurse (Suc fuel) root mx k s = Returns s" if "?sz (hs ! i) = 0"
    using that nonempty chosen by simp
  have pos: "recurse (Suc fuel) root mx k s =
             and_then (on_linked (cover fuel (hs ! i)) s)
               (\<lambda>s1. case head (header_at (linked s1) (hs ! i)) of
                        None \<Rightarrow> Throws TypeError
                      | Some hnode \<Rightarrow>
                          and_then
                            (eachNode fuel linked hnode Down
                               (try_row (recurse fuel root mx (k + 1)) fuel k) s1)
                            (on_linked (uncover fuel (hs ! i))))"
    if "\<not> (mx \<noteq> 0 \<and> length (solutions s) = mx)" "0 < ?sz (hs ! i)"
    using that nonempty chosen by auto
  from i(1) chosen i(3,4) zero pos show ?thesis
    by blast
qed

theorem recurse_chooses_smallest_header_witness:
  "header_ring example_heap 3 [0, 1, 2] \<and>
   (\<exists>i<3. eachHeader 4 fst 3 Next choose_header (example_heap, \<lparr>best = None, smallest = None\<rparr>)
     = Returns (example_heap, \<lparr>best = Some ([0, 1, 2] ! i),
          smallest = Some (length_h (header_at example_heap ([0, 1, 2] ! i)))\<rparr>))"
proof -
  let ?s = "\<lparr>linked = example_heap, solutions = [], partials = []\<rparr>"
  have ring: "header_ring (linked ?s) 3 [0, 1, 2]"
    by (simp add: header_ring_def example_heap_def header_at_def)
  have ne: "[0, 1, 2::nat] \<noteq> []"
    by simp
  have lt: "length [0, 1, 2::nat] < 4"
    by simp
  from recurse_chooses_smallest_header [OF ring ne lt, of 0 0]
  obtain i where i: "i < length [0, 1, 2::nat]"
    "eachHeader 4 fst 3 Next choose_header (linked ?s, \<lparr>best = None, smallest = None\<rparr>)
       = Returns (linked ?s, \<lparr>best = Some ([0, 1, 2] ! i),
            smallest = Some (length_h (header_at (linked ?s) ([0, 1, 2] ! i)))\<rparr>)"
    by blast
  from i have "\<exists>i<3. eachHeader 4 fst 3 Next choose_header (example_heap, \<lparr>best = None, smallest = None\<rparr>)
     = Returns (example_heap, \<lparr>best = Some ([0, 1, 2] ! i),
          smallest = Some (length_h (header_at example_heap ([0, 1, 2] ! i)))\<rparr>)"
    by (intro exI [of _ i]) simp
  with ring show ?thesis
    by simp
qed

section \<open>Reading a structure after an assignment\<close>

lemma node_at_set_up [simp]:
  "node_at (set_up n v h) m =
     (if m = n \<and> n < length (nodes h) then (node_at h n)\<lparr>up := v\<rparr> else node_at h m)"
  by (auto simp: node_at_def set_up_def nth_list_update list_update_beyond)

lemma node_at_set_down [simp]:
  "node_at (set_down n v h) m =
     (if m = n \<and> n < length (nodes h) then (node_at h n)\<lparr>down := v\<rparr> else node_at h m)"
  by (auto simp: node_at_def set_down_def nth_list_update list_update_beyond)

lemma node_at_set_header_fields [simp]:
  "node_at (set_length c i h) m = node_at h m"
  "node_at (set_prev c v h) m = node_at h m"
  "node_at (set_next c v h) m = node_at h m"
  "node_at (set_head c x h) m = node_at h m"
  by (simp_all add: node_at_def set_length_def set_prev_def set_next_def set_head_def)

lemma header_at_set_node_fields [simp]:
  "header_at (set_up n v h) c = header_at h c"
  "header_at (set_down n v h) c = header_at h c"
  "header_at (set_left n v h) c = header_at h c"
  "header_at (set_right n v h) c = header_at h c"
  "header_at (set_rowNumber n r h) c = header_at h c"
  by (simp_all add: header_at_def set_up_def set_down_def set_left_def set_right_def
      set_rowNumber_def)

lemma header_at_set_length [simp]:
  "header_at (set_length c i h) d =
     (if d = c \<and> c < length (headers h) then (header_at h c)\<lparr>length_h := i\<rparr> else header_at h d)"
  by (auto simp: header_at_def set_length_def nth_list_update list_update_beyond)

lemma header_at_set_prev [simp]:
  "header_at (set_prev c v h) d =
     (if d = c \<and> c < length (headers h) then (header_at h c)\<lparr>prev := v\<rparr> else header_at h d)"
  by (auto simp: header_at_def set_prev_def nth_list_update list_update_beyond)

lemma header_at_set_next [simp]:
  "header_at (set_next c v h) d =
     (if d = c \<and> c < length (headers h) then (header_at h c)\<lparr>next := v\<rparr> else header_at h d)"
  by (auto simp: header_at_def set_next_def nth_list_update list_update_beyond)

lemma length_nodes_set [simp]:
  "length (nodes (set_up n v h)) = length (nodes h)"
  "length (nodes (set_down n v h)) = length (nodes h)"
  "length (nodes (set_left n v h)) = length (nodes h)"
  "length (nodes (set_right n v h)) = length (nodes h)"
  "length (nodes (set_rowNumber n r h)) = length (nodes h)"
  "length (nodes (set_length c i h)) = length (nodes h)"
  "length (nodes (set_prev c v h)) = length (nodes h)"
  "length (nodes (set_next c v h)) = length (nodes h)"
  "length (nodes (set_head c x h)) = length (nodes h)"
  by (simp_all add: set_up_def set_down_def set_left_def set_right_def set_rowNumber_def
      set_length_def set_prev_def set_next_def set_head_def)

lemma length_headers_set [simp]:
  "length (headers (set_up n v h)) = length (headers h)"
  "length (headers (set_down n v h)) = length (headers h)"
  "length (headers (set_left n v h)) = length (headers h)"
  "length (headers (set_right n v h)) = length (headers h)"
  "length (headers (set_rowNumber n r h)) = length (headers h)"
  "length (headers (set_length c i h)) = length (headers h)"
  "length (headers (set_prev c v h)) = length (headers h)"
  "length (headers (set_next c v h)) = length (headers h)"
  "length (headers (set_head c x h)) = length (headers h)"
  by (simp_all add: set_up_def set_down_def set_left_def set_right_def set_rowNumber_def
      set_length_def set_prev_def set_next_def set_head_def)

text \<open>Two structures are equal when they agree on every node and every header.\<close>

lemma heap_eqI:
  assumes "length (nodes g) = length (nodes h)" and "length (headers g) = length (headers h)"
    and "\<And>n. n < length (nodes h) \<Longrightarrow> node_at g n = node_at h n"
    and "\<And>c. c < length (headers h) \<Longrightarrow> header_at g c = header_at h c"
  shows "g = h"
proof -
  have "nodes g = nodes h"
    using assms(1,3) by (auto simp: node_at_def intro: nth_equalityI)
  moreover have "headers g = headers h"
    using assms(2,4) by (auto simp: header_at_def intro: nth_equalityI)
  ultimately show ?thesis by simp
qed

section \<open>Chains, cycles and rings\<close>

lemma chain_append:
  "chain f n (xs @ ys) y \<longleftrightarrow> (\<exists>m. chain f n xs m \<and> chain f m ys y)"
  by (induction xs arbitrary: n) auto

lemma chain_cong:
  "(\<And>x. x \<in> set xs \<Longrightarrow> f x = g x) \<Longrightarrow> chain f n xs y = chain g n xs y"
  by (induction xs arbitrary: n) auto

lemma chain_unique_end: "chain f n xs y \<Longrightarrow> chain f n xs y' \<Longrightarrow> y = y'"
  by (induction xs arbitrary: n) auto

lemma walk_chain: "walk f z n xs \<longleftrightarrow> chain f n xs z \<and> z \<notin> set xs"
  by (induction xs arbitrary: n) auto

lemma cyc_walk: "cyc f z xs \<Longrightarrow> walk f z (f z) xs"
  by (simp add: cyc_def walk_chain)

lemma cyc_cong:
  "(\<And>x. x \<in> set (z # xs) \<Longrightarrow> f x = g x) \<Longrightarrow> cyc f z xs = cyc g z xs"
  using chain_cong [of xs f g "f z" z] by (simp add: cyc_def)

lemma ring_cong:
  "(\<And>x. x \<in> set (z # xs) \<Longrightarrow> f x = f' x \<and> g x = g' x) \<Longrightarrow> ring f g z xs = ring f' g' z xs"
  using cyc_cong [of z xs f f'] cyc_cong [of z "rev xs" g g'] by (simp add: ring_def)

text \<open>In a cycle the link of every node is fixed by the list of the cycle.\<close>

lemma chain_link_fixed:
  "chain f n xs y \<Longrightarrow> chain g n xs y \<Longrightarrow> distinct xs \<Longrightarrow> y \<notin> set xs \<Longrightarrow>
   x \<in> set xs \<Longrightarrow> f x = g x"
proof (induction xs arbitrary: n)
  case (Cons a xs)
  show ?case
  proof (cases "x = a")
    case True
    from Cons.prems have "chain f (f a) xs y" "chain g (g a) xs y"
      by auto
    then have "f a = g a"
      by (cases xs) auto
    with True show ?thesis by simp
  next
    case False
    with Cons.prems have "x \<in> set xs" by simp
    moreover from Cons.prems have "chain f (f a) xs y" "chain g (g a) xs y"
      by auto
    moreover have "f a = g a"
      using calculation(2,3) by (cases xs) auto
    ultimately show ?thesis
      using Cons.IH [of "f a"] Cons.prems by auto
  qed
qed simp

lemma cyc_link_fixed:
  assumes "cyc f z xs" and "cyc g z xs" and "x \<in> set (z # xs)"
  shows "f x = g x"
proof -
  have "chain f z (z # xs) z" "chain g z (z # xs) z"
    using assms(1,2) by (simp_all add: cyc_def)
  moreover have "f z = g z"
    using assms(1,2) by (cases xs) (auto simp: cyc_def)
  ultimately show ?thesis
    using assms chain_link_fixed [of f "f z" xs z g x] by (auto simp: cyc_def)
qed

text \<open>
  The neighbours of a node of a cycle: with the cycle \<open>z # xs\<close> split around
  \<open>m\<close>, the link of the node before \<open>m\<close> is \<open>m\<close>, and the link of \<open>m\<close> is the
  node after it.
\<close>

lemma cyc_split:
  assumes "cyc f z xs" and "xs = as @ m # bs"
  shows "f (last (z # as)) = m" and "f m = hd (bs @ [z])"
    and "last (z # as) \<noteq> m" and "hd (bs @ [z]) \<noteq> m"
proof -
  from assms have ch: "chain f (f z) (as @ m # bs) z" and d: "distinct (z # as @ m # bs)"
    by (simp_all add: cyc_def)
  from ch obtain y where y: "chain f (f z) as y" "chain f y (m # bs) z"
    by (auto simp: chain_append)
  then have ym: "y = m" and bs: "chain f (f m) bs z"
    by auto
  show "f (last (z # as)) = m"
  proof (cases as rule: rev_cases)
    case Nil
    with y ym show ?thesis by simp
  next
    case (snoc as' a)
    with y(1) ym show ?thesis by (auto simp: chain_append)
  qed
  show "f m = hd (bs @ [z])"
    using bs by (cases bs) auto
  show "last (z # as) \<noteq> m"
    using d by (cases as rule: rev_cases) auto
  show "hd (bs @ [z]) \<noteq> m"
    using d by (cases bs) auto
qed

lemma cyc_unlink:
  assumes "cyc f z xs" and "xs = as @ m # bs"
  shows "cyc (f(last (z # as) := f m)) z (as @ bs)"
proof -
  let ?p = "last (z # as)"
  let ?f = "f(?p := f m)"
  from assms have ch: "chain f (f z) (as @ m # bs) z" and d: "distinct (z # as @ m # bs)"
    by (simp_all add: cyc_def)
  from ch have bs: "chain f (f m) bs z" and as: "chain f (f z) as m"
    by (auto simp: chain_append)
  have pbs: "?p \<notin> set bs"
    using d by (cases as rule: rev_cases) auto
  have "chain ?f (f m) bs z = chain f (f m) bs z"
    by (rule chain_cong) (use pbs in auto)
  with bs have bs': "chain ?f (f m) bs z"
    by simp
  have "chain ?f (?f z) (as @ bs) z"
  proof (cases as rule: rev_cases)
    case Nil
    then show ?thesis using bs' by simp
  next
    case (snoc as' a)
    with as have as': "chain f (f z) as' a"
      by (auto simp: chain_append)
    have "a \<notin> set as'" "a \<noteq> z"
      using d snoc by auto
    have "chain ?f (f z) as' a = chain f (f z) as' a"
      by (rule chain_cong) (use \<open>a \<notin> set as'\<close> snoc in auto)
    with as' have "chain ?f (?f z) as' a"
      using snoc \<open>a \<noteq> z\<close> by simp
    then show ?thesis
      using snoc bs' by (auto simp: chain_append)
  qed
  moreover have "distinct (z # as @ bs)"
    using d by auto
  ultimately show ?thesis
    by (simp add: cyc_def)
qed

lemma ring_split:
  assumes "ring f g z xs" and "xs = as @ m # bs"
  shows "g m = last (z # as)" and "f m = hd (bs @ [z])"
    and "f (g m) = m" and "g (f m) = m" and "g m \<noteq> m" and "f m \<noteq> m"
proof -
  from assms have cf: "cyc f z xs" and cg: "cyc g z (rev xs)"
    by (simp_all add: ring_def)
  have r: "rev xs = rev bs @ m # rev as"
    using assms(2) by simp
  have l: "last (z # rev bs) = hd (bs @ [z])"
    by (cases bs) (simp_all add: last_rev)
  have h: "hd (rev as @ [z]) = last (z # as)"
    by (cases as rule: rev_cases) simp_all
  show "g m = last (z # as)"
    using cyc_split(2) [OF cg r] h by simp
  show "f m = hd (bs @ [z])"
    by (rule cyc_split(2) [OF cf assms(2)])
  show "f (g m) = m"
    using cyc_split(1) [OF cf assms(2)] \<open>g m = last (z # as)\<close> by simp
  show "g (f m) = m"
    using cyc_split(1) [OF cg r] l \<open>f m = hd (bs @ [z])\<close> by simp
  show "g m \<noteq> m"
    using cyc_split(3) [OF cf assms(2)] \<open>g m = last (z # as)\<close> by simp
  show "f m \<noteq> m"
    using cyc_split(4) [OF cf assms(2)] \<open>f m = hd (bs @ [z])\<close> by simp
qed

lemma ring_unlink:
  assumes "ring f g z xs" and "xs = as @ m # bs"
  shows "ring (f(g m := f m)) (g(f m := g m)) z (as @ bs)"
proof -
  from assms have cf: "cyc f z xs" and cg: "cyc g z (rev xs)"
    by (simp_all add: ring_def)
  have r: "rev xs = rev bs @ m # rev as"
    using assms(2) by simp
  have l: "last (z # rev bs) = hd (bs @ [z])"
    by (cases bs) (simp_all add: last_rev)
  have "cyc (f(last (z # as) := f m)) z (as @ bs)"
    by (rule cyc_unlink [OF cf assms(2)])
  moreover have "cyc (g(last (z # rev bs) := g m)) z (rev bs @ rev as)"
    by (rule cyc_unlink [OF cg r])
  ultimately show ?thesis
    using ring_split(1,2) [OF assms] l by (simp add: ring_def)
qed

lemma ring_in_range:
  "ring f g z xs \<Longrightarrow> m \<in> set xs \<Longrightarrow> f m \<in> set (z # xs) \<and> g m \<in> set (z # xs)"
proof -
  assume r: "ring f g z xs" and m: "m \<in> set xs"
  from m obtain as bs where s: "xs = as @ m # bs"
    by (auto dest: split_list)
  have "hd (bs @ [z]) \<in> set (z # xs)"
    using s by (cases bs) auto
  moreover have "last (z # as) \<in> set (z # xs)"
    using s by (cases as rule: rev_cases) auto
  ultimately show ?thesis
    using ring_split(1,2) [OF r s] by simp
qed

section \<open>Splicing a node out of its column and back\<close>

lemma same_shape_refl [simp]: "same_shape h h"
  by (simp add: same_shape_def)

lemma same_shape_trans: "same_shape h g \<Longrightarrow> same_shape g k \<Longrightarrow> same_shape h k"
  by (simp add: same_shape_def)

lemma same_shape_sym: "same_shape h g \<Longrightarrow> same_shape g h"
  by (simp add: same_shape_def)

lemma cover_colNode_shape: "same_shape h (cover_colNode m h)"
  by (simp add: same_shape_def cover_colNode_def Let_def)

lemma uncover_colNode_shape: "same_shape h (uncover_colNode m h)"
  by (simp add: same_shape_def uncover_colNode_def Let_def)

lemma cover_colNode_down:
  assumes "up_of h m < length (nodes h)"
  shows "down_of (cover_colNode m h) n = (if n = up_of h m then down_of h m else down_of h n)"
  using assms by (auto simp: cover_colNode_def Let_def)

lemma cover_colNode_up:
  assumes "down_of h m < length (nodes h)"
  shows "up_of (cover_colNode m h) n = (if n = down_of h m then up_of h m else up_of h n)"
  using assms by (auto simp: cover_colNode_def Let_def)

lemma cover_colNode_headers:
  "next_of (cover_colNode m h) c = next_of h c" "prev_of (cover_colNode m h) c = prev_of h c"
  by (auto simp: cover_colNode_def Let_def)

lemma cover_colNode_size:
  assumes "header_of h m < length (headers h)"
  shows "size_of (cover_colNode m h) c = (if c = header_of h m then size_of h c - 1 else size_of h c)"
  using assms by (auto simp: cover_colNode_def Let_def)

lemma uncover_colNode_down:
  assumes "up_of h m < length (nodes h)"
  shows "down_of (uncover_colNode m h) n = (if n = up_of h m then m else down_of h n)"
  using assms by (auto simp: uncover_colNode_def Let_def)

lemma uncover_colNode_up:
  assumes "down_of h m < length (nodes h)" and "up_of h m \<noteq> m"
  shows "up_of (uncover_colNode m h) n = (if n = down_of h m then m else up_of h n)"
  using assms by (auto simp: uncover_colNode_def Let_def)

lemma uncover_colNode_up_any:
  assumes "down_of h m < length (nodes h)" and "m < length (nodes h)"
  shows "\<exists>q. (q = m \<or> q = down_of h m) \<and>
             (\<forall>n. up_of (uncover_colNode m h) n = (if n = q then m else up_of h n))"
proof (cases "up_of h m = m")
  case True
  then show ?thesis
    using assms by (intro exI [of _ m]) (auto simp: uncover_colNode_def Let_def)
next
  case False
  then show ?thesis
    using assms by (intro exI [of _ "down_of h m"]) (auto simp: uncover_colNode_def Let_def)
qed

lemma uncover_colNode_headers:
  "next_of (uncover_colNode m h) c = next_of h c" "prev_of (uncover_colNode m h) c = prev_of h c"
  by (auto simp: uncover_colNode_def Let_def)

lemma uncover_colNode_size:
  assumes "header_of h m < length (headers h)"
  shows "size_of (uncover_colNode m h) c = (if c = header_of h m then size_of h c + 1 else size_of h c)"
  using assms by (auto simp: uncover_colNode_def Let_def)

lemma links_ok_cover_colNode:
  assumes "links_ok h" and "m < length (nodes h)"
  shows "links_ok (cover_colNode m h)"
proof -
  let ?g = "cover_colNode m h"
  from assms have r: "up_of h m < length (nodes h)" "down_of h m < length (nodes h)"
    "header_of h (up_of h m) = header_of h m" "header_of h (down_of h m) = header_of h m"
    by (auto simp: links_ok_def)
  have sh: "same_shape h ?g"
    by (rule cover_colNode_shape)
  show ?thesis
    unfolding links_ok_def
  proof (intro conjI allI impI)
    fix n assume "n < length (nodes ?g)"
    then have n: "n < length (nodes h)"
      using sh by (simp add: same_shape_def)
    with assms(1) have nn: "up_of h n < length (nodes h)" "down_of h n < length (nodes h)"
      "left_of h n < length (nodes h)" "right_of h n < length (nodes h)"
      "header_of h n < length (headers h)"
      "header_of h (up_of h n) = header_of h n" "header_of h (down_of h n) = header_of h n"
      by (auto simp: links_ok_def)
    show "up_of ?g n < length (nodes ?g)" "down_of ?g n < length (nodes ?g)"
      "header_of ?g (up_of ?g n) = header_of ?g n" "header_of ?g (down_of ?g n) = header_of ?g n"
      using sh r nn by (auto simp: same_shape_def cover_colNode_up [OF r(2)] cover_colNode_down [OF r(1)])
    show "left_of ?g n < length (nodes ?g)" "right_of ?g n < length (nodes ?g)"
      "header_of ?g n < length (headers ?g)"
      using sh nn by (simp_all add: same_shape_def)
  next
    fix c assume "c < length (headers ?g)"
    then have "c < length (headers h)"
      using sh by (simp add: same_shape_def)
    with assms(1) show "prev_of ?g c < length (headers ?g)" "next_of ?g c < length (headers ?g)"
      using sh by (auto simp: links_ok_def cover_colNode_headers same_shape_def)
  qed
qed

lemma links_ok_uncover_colNode:
  assumes "links_ok h" and "m < length (nodes h)"
  shows "links_ok (uncover_colNode m h)"
proof -
  let ?g = "uncover_colNode m h"
  from assms have r: "up_of h m < length (nodes h)" "down_of h m < length (nodes h)"
    "header_of h (up_of h m) = header_of h m" "header_of h (down_of h m) = header_of h m"
    by (auto simp: links_ok_def)
  have sh: "same_shape h ?g"
    by (rule uncover_colNode_shape)
  from uncover_colNode_up_any [OF r(2) assms(2)] obtain q where q: "q = m \<or> q = down_of h m"
    "\<And>n. up_of ?g n = (if n = q then m else up_of h n)"
    by blast
  show ?thesis
    unfolding links_ok_def
  proof (intro conjI allI impI)
    fix n assume "n < length (nodes ?g)"
    then have n: "n < length (nodes h)"
      using sh by (simp add: same_shape_def)
    with assms(1) have nn: "up_of h n < length (nodes h)" "down_of h n < length (nodes h)"
      "left_of h n < length (nodes h)" "right_of h n < length (nodes h)"
      "header_of h n < length (headers h)"
      "header_of h (up_of h n) = header_of h n" "header_of h (down_of h n) = header_of h n"
      by (auto simp: links_ok_def)
    show "up_of ?g n < length (nodes ?g)" "down_of ?g n < length (nodes ?g)"
      "header_of ?g (up_of ?g n) = header_of ?g n" "header_of ?g (down_of ?g n) = header_of ?g n"
      using sh r nn assms(2) q(1)
      by (auto simp: same_shape_def q(2) uncover_colNode_down [OF r(1)])
    show "left_of ?g n < length (nodes ?g)" "right_of ?g n < length (nodes ?g)"
      "header_of ?g n < length (headers ?g)"
      using sh nn by (simp_all add: same_shape_def)
  next
    fix c assume "c < length (headers ?g)"
    then have "c < length (headers h)"
      using sh by (simp add: same_shape_def)
    with assms(1) show "prev_of ?g c < length (headers ?g)" "next_of ?g c < length (headers ?g)"
      using sh by (auto simp: links_ok_def uncover_colNode_headers same_shape_def)
  qed
qed

text \<open>
  A node that is linked in (its neighbours point back at it) is put back
  exactly by \<open>uncover\<close>'s loop body after \<open>cover\<close>'s loop body took it out.
\<close>

lemma uncover_cover_colNode:
  assumes "m < length (nodes h)" and "up_of h m < length (nodes h)"
    and "down_of h m < length (nodes h)" and "header_of h m < length (headers h)"
    and "down_of h (up_of h m) = m" and "up_of h (down_of h m) = m"
    and "up_of h m \<noteq> m" and "down_of h m \<noteq> m"
  shows "uncover_colNode m (cover_colNode m h) = h"
proof (rule heap_eqI)
  let ?g = "cover_colNode m h"
  have sh: "same_shape h ?g" and sh': "same_shape ?g (uncover_colNode m ?g)"
    by (rule cover_colNode_shape, rule uncover_colNode_shape)
  show "length (nodes (uncover_colNode m ?g)) = length (nodes h)"
    "length (headers (uncover_colNode m ?g)) = length (headers h)"
    using sh sh' by (simp_all add: same_shape_def)
  have um: "up_of ?g m = up_of h m" and dm: "down_of ?g m = down_of h m"
    using assms by (simp_all add: cover_colNode_up cover_colNode_down)
  have hm: "header_of ?g m = header_of h m"
    using sh by (simp add: same_shape_def)
  show "node_at (uncover_colNode m ?g) n = node_at h n" if "n < length (nodes h)" for n
  proof -
    have "up_of (uncover_colNode m ?g) n = up_of h n"
      using assms um dm sh
      by (simp add: uncover_colNode_up cover_colNode_up same_shape_def)
    moreover have "down_of (uncover_colNode m ?g) n = down_of h n"
      using assms um dm sh
      by (simp add: uncover_colNode_down cover_colNode_down same_shape_def)
    moreover have "left_of (uncover_colNode m ?g) n = left_of h n"
      "right_of (uncover_colNode m ?g) n = right_of h n"
      "header_of (uncover_colNode m ?g) n = header_of h n"
      "row_of (uncover_colNode m ?g) n = row_of h n"
      using sh sh' by (simp_all add: same_shape_def)
    ultimately show ?thesis
      by (intro node.equality) simp_all
  qed
  show "header_at (uncover_colNode m ?g) c = header_at h c" if "c < length (headers h)" for c
  proof -
    have "size_of (uncover_colNode m ?g) c = size_of h c"
      using assms(4) hm sh
      by (simp add: uncover_colNode_size cover_colNode_size same_shape_def)
    moreover have "next_of (uncover_colNode m ?g) c = next_of h c"
      "prev_of (uncover_colNode m ?g) c = prev_of h c"
      by (simp_all add: uncover_colNode_headers cover_colNode_headers)
    moreover have "head (header_at (uncover_colNode m ?g) c) = head (header_at h c)"
      using sh sh' by (simp add: same_shape_def)
    ultimately show ?thesis
      by (intro column.equality) simp_all
  qed
qed


section \<open>The columns while nodes are spliced out\<close>

lemma column_ok_distinct: "column_ok h c ns \<Longrightarrow> distinct ns"
  by (auto simp: column_ok_def ring_def cyc_def)

lemma column_ok_node:
  "column_ok h c ns \<Longrightarrow> n \<in> set ns \<Longrightarrow>
   n < length (nodes h) \<and> header_of h n = c \<and> row_of h n \<noteq> None"
  by (simp add: column_ok_def)

lemma column_ok_head:
  assumes "column_ok h c ns"
  obtains hn where "head (header_at h c) = Some hn" and "hn < length (nodes h)"
    and "header_of h hn = c" and "row_of h hn = None" and "ring (down_of h) (up_of h) hn ns"
  using assms unfolding column_ok_def by blast

lemma column_ok_size: "column_ok h c ns \<Longrightarrow> size_of h c = int (length ns)"
  by (simp add: column_ok_def)

lemma column_ok_header_range: "column_ok h c ns \<Longrightarrow> c < length (headers h)"
  by (simp add: column_ok_def)

lemma column_ok_cover_colNode_same:
  assumes "links_ok h" and "column_ok h j ns" and "m \<in> set ns"
  shows "column_ok (cover_colNode m h) j (remove1 m ns)"
proof -
  let ?g = "cover_colNode m h"
  from assms(2) obtain hn where hn: "head (header_at h j) = Some hn" "hn < length (nodes h)"
    "header_of h hn = j" "row_of h hn = None" "ring (down_of h) (up_of h) hn ns"
    and j: "j < length (headers h)"
    and ns: "\<forall>n\<in>set ns. n < length (nodes h) \<and> header_of h n = j \<and> row_of h n \<noteq> None"
    and sz: "size_of h j = int (length ns)"
    by (auto simp: column_ok_def)
  from assms(3) ns have m: "m < length (nodes h)" "header_of h m = j"
    by auto
  with assms(1) have r: "up_of h m < length (nodes h)" "down_of h m < length (nodes h)"
    by (auto simp: links_ok_def)
  from assms(3) obtain as bs where s: "ns = as @ m # bs"
    by (auto dest: split_list)
  from column_ok_distinct [OF assms(2)] s have rm: "remove1 m ns = as @ bs"
    by (simp add: remove1_append)
  have sh: "same_shape h ?g"
    by (rule cover_colNode_shape)
  have "ring ((down_of h)(up_of h m := down_of h m)) ((up_of h)(down_of h m := up_of h m)) hn (as @ bs)"
    by (rule ring_unlink [OF hn(5) s])
  also have "?this = ring (down_of ?g) (up_of ?g) hn (as @ bs)"
    by (rule ring_cong) (simp add: cover_colNode_down [OF r(1)] cover_colNode_up [OF r(2)])
  finally have "ring (down_of ?g) (up_of ?g) hn (as @ bs)" .
  moreover have "size_of ?g j = int (length (as @ bs))"
    using sz s j m by (simp add: cover_colNode_size)
  moreover have "\<forall>n\<in>set (as @ bs). n < length (nodes ?g) \<and> header_of ?g n = j \<and> row_of ?g n \<noteq> None"
    using ns s sh by (auto simp: same_shape_def)
  ultimately show ?thesis
    using hn j sh unfolding column_ok_def rm by (auto simp: same_shape_def)
qed

text \<open>A column keeps its ring while the vertical links of its nodes are kept.\<close>

lemma column_ok_kept:
  assumes "column_ok h c ws" and "same_shape h g"
    and "\<And>n. n < length (nodes h) \<Longrightarrow> header_of h n = c \<Longrightarrow>
           down_of g n = down_of h n \<and> up_of g n = up_of h n"
    and "size_of g c = size_of h c"
  shows "column_ok g c ws"
proof -
  from assms(1) obtain hn where hn: "head (header_at h c) = Some hn" "hn < length (nodes h)"
    "header_of h hn = c" "row_of h hn = None" "ring (down_of h) (up_of h) hn ws"
    and c: "c < length (headers h)"
    and ws: "\<forall>n\<in>set ws. n < length (nodes h) \<and> header_of h n = c \<and> row_of h n \<noteq> None"
    and sz: "size_of h c = int (length ws)"
    by (auto simp: column_ok_def)
  have "ring (down_of g) (up_of g) hn ws = ring (down_of h) (up_of h) hn ws"
    by (rule ring_cong) (use hn ws assms(3) in auto)
  with hn c ws sz assms(2,4) show ?thesis
    unfolding column_ok_def by (auto simp: same_shape_def)
qed

lemma column_ok_cover_colNode_other:
  assumes "links_ok h" and "column_ok h c ws" and "m < length (nodes h)"
    and "header_of h m \<noteq> c"
  shows "column_ok (cover_colNode m h) c ws"
proof (rule column_ok_kept [OF assms(2) cover_colNode_shape])
  from assms(1,3) have r: "up_of h m < length (nodes h)" "down_of h m < length (nodes h)"
    "header_of h (up_of h m) = header_of h m" "header_of h (down_of h m) = header_of h m"
    "header_of h m < length (headers h)"
    by (auto simp: links_ok_def)
  show "size_of (cover_colNode m h) c = size_of h c"
    using r(5) assms(4) by (simp add: cover_colNode_size)
  fix n assume "n < length (nodes h)" "header_of h n = c"
  then show "down_of (cover_colNode m h) n = down_of h n \<and> up_of (cover_colNode m h) n = up_of h n"
    using r assms(4) by (auto simp: cover_colNode_down cover_colNode_up)
qed

text \<open>In a column's ring, the neighbours of a node point back at it.\<close>

lemma column_ok_linked:
  assumes "column_ok h j ns" and "m \<in> set ns"
  shows "down_of h (up_of h m) = m" and "up_of h (down_of h m) = m"
    and "up_of h m \<noteq> m" and "down_of h m \<noteq> m"
proof -
  from assms(1) obtain hn where r: "ring (down_of h) (up_of h) hn ns"
    by (auto simp: column_ok_def)
  from assms(2) obtain as bs where s: "ns = as @ m # bs"
    by (auto dest: split_list)
  show "down_of h (up_of h m) = m" "up_of h (down_of h m) = m"
    "up_of h m \<noteq> m" "down_of h m \<noteq> m"
    using ring_split(3-6) [OF r s] by simp_all
qed

text \<open>
  Splicing out a list of distinct nodes, each of which is in the ring of its
  column: every column loses exactly these nodes, and splicing them back in
  reverse order gives the structure back.
\<close>

lemma filter_remove1:
  "distinct xs \<Longrightarrow> filter P (remove1 m xs) = filter (\<lambda>n. n \<noteq> m \<and> P n) xs"
  by (induction xs) (auto simp: remove1_idem)

lemma fold_cover_colNode:
  assumes "links_ok h" and "\<forall>c\<in>C. column_ok h c (ws c)" and "distinct L"
    and "\<forall>m\<in>set L. header_of h m \<in> C \<and> m \<in> set (ws (header_of h m))"
  shows "links_ok (fold cover_colNode L h) \<and> same_shape h (fold cover_colNode L h) \<and>
     (\<forall>c\<in>C. column_ok (fold cover_colNode L h) c (filter (\<lambda>n. n \<notin> set L) (ws c))) \<and>
     (\<forall>c. next_of (fold cover_colNode L h) c = next_of h c \<and>
          prev_of (fold cover_colNode L h) c = prev_of h c) \<and>
     (\<forall>c. c \<notin> header_of h ` set L \<longrightarrow> size_of (fold cover_colNode L h) c = size_of h c) \<and>
     fold uncover_colNode (rev L) (fold cover_colNode L h) = h"
  using assms
proof (induction L arbitrary: h ws)
  case Nil
  then show ?case by simp
next
  case (Cons m L)
  let ?j = "header_of h m"
  let ?h1 = "cover_colNode m h"
  let ?ws1 = "ws(?j := remove1 m (ws ?j))"
  from Cons.prems have j: "?j \<in> C" and mj: "m \<in> set (ws ?j)" and cj: "column_ok h ?j (ws ?j)"
    by auto
  from column_ok_node [OF cj mj] have m: "m < length (nodes h)"
    by simp
  with Cons.prems(1) have r: "up_of h m < length (nodes h)" "down_of h m < length (nodes h)"
    "header_of h m < length (headers h)"
    by (auto simp: links_ok_def)
  have sh1: "same_shape h ?h1"
    by (rule cover_colNode_shape)
  have l1: "links_ok ?h1"
    by (rule links_ok_cover_colNode [OF Cons.prems(1) m])
  have c1: "\<forall>c\<in>C. column_ok ?h1 c (?ws1 c)"
  proof
    fix c assume c: "c \<in> C"
    show "column_ok ?h1 c (?ws1 c)"
    proof (cases "c = ?j")
      case True
      then show ?thesis
        using column_ok_cover_colNode_same [OF Cons.prems(1) cj mj] by simp
    next
      case False
      then show ?thesis
        using column_ok_cover_colNode_other [OF Cons.prems(1) _ m, of c "ws c"] Cons.prems(2) c
        by auto
    qed
  qed
  have d1: "distinct L"
    using Cons.prems(3) by simp
  have in1: "\<forall>x\<in>set L. header_of ?h1 x \<in> C \<and> x \<in> set (?ws1 (header_of ?h1 x))"
  proof
    fix x assume x: "x \<in> set L"
    with Cons.prems(3) have "x \<noteq> m" by auto
    moreover from x Cons.prems(4) have "header_of h x \<in> C" "x \<in> set (ws (header_of h x))"
      by auto
    ultimately show "header_of ?h1 x \<in> C \<and> x \<in> set (?ws1 (header_of ?h1 x))"
      using sh1 by (auto simp: same_shape_def)
  qed
  let ?g = "fold cover_colNode L ?h1"
  note IH = Cons.IH [OF l1 c1 d1 in1]
  have ih: "links_ok ?g" "same_shape ?h1 ?g"
    "\<forall>c\<in>C. column_ok ?g c (filter (\<lambda>n. n \<notin> set L) (?ws1 c))"
    "\<forall>c. next_of ?g c = next_of ?h1 c \<and> prev_of ?g c = prev_of ?h1 c"
    "\<forall>c. c \<notin> header_of ?h1 ` set L \<longrightarrow> size_of ?g c = size_of ?h1 c"
    "fold uncover_colNode (rev L) ?g = ?h1"
    using IH [THEN conjunct1] IH [THEN conjunct2, THEN conjunct1]
      IH [THEN conjunct2, THEN conjunct2, THEN conjunct1]
      IH [THEN conjunct2, THEN conjunct2, THEN conjunct2, THEN conjunct1]
      IH [THEN conjunct2, THEN conjunct2, THEN conjunct2, THEN conjunct2, THEN conjunct1]
      IH [THEN conjunct2, THEN conjunct2, THEN conjunct2, THEN conjunct2, THEN conjunct2]
    by - assumption+
  have filt: "filter (\<lambda>n. n \<notin> set L) (?ws1 c) = filter (\<lambda>n. n \<notin> set (m # L)) (ws c)"
    if "c \<in> C" for c
  proof (cases "c = ?j")
    case True
    have "distinct (ws ?j)"
      by (rule column_ok_distinct [OF cj])
    then have "filter (\<lambda>n. n \<notin> set L) (remove1 m (ws ?j))
        = filter (\<lambda>n. n \<noteq> m \<and> n \<notin> set L) (ws ?j)"
      by (rule filter_remove1)
    with True show ?thesis
      by simp
  next
    case False
    have "m \<notin> set (ws c)"
      using Cons.prems(2) that False column_ok_node [of h c "ws c" m] by auto
    then have "filter (\<lambda>n. n \<notin> set (m # L)) (ws c) = filter (\<lambda>n. n \<notin> set L) (ws c)"
      by (intro filter_cong) auto
    with False show ?thesis
      by simp
  qed
  have hdr: "header_of ?h1 ` set L = header_of h ` set L"
    using sh1 by (simp add: same_shape_def)
  have "uncover_colNode m ?h1 = h"
    by (rule uncover_cover_colNode [OF m r column_ok_linked [OF cj mj]])
  with ih(6) have "fold uncover_colNode (rev (m # L)) (fold cover_colNode (m # L) h) = h"
    by simp
  moreover have "\<forall>c. c \<notin> header_of h ` set (m # L) \<longrightarrow>
      size_of (fold cover_colNode (m # L) h) c = size_of h c"
    using ih(5) hdr r(3) by (auto simp: cover_colNode_size)
  moreover have "\<forall>c\<in>C. column_ok (fold cover_colNode (m # L) h) c
      (filter (\<lambda>n. n \<notin> set (m # L)) (ws c))"
    using ih(3) filt by simp
  moreover have "same_shape h (fold cover_colNode (m # L) h)"
    using same_shape_trans [OF sh1 ih(2)] by simp
  moreover have "links_ok (fold cover_colNode (m # L) h)"
    using ih(1) by simp
  moreover have "\<forall>c. next_of (fold cover_colNode (m # L) h) c = next_of h c \<and>
          prev_of (fold cover_colNode (m # L) h) c = prev_of h c"
    using ih(4) by (simp add: cover_colNode_headers)
  ultimately show ?case
    by (intro conjI)
qed

section \<open>A header leaving and rejoining the ring\<close>

lemma cover_unfold:
  "cover fuel c h =
     (case head (header_at (unlink_header c h) c) of
        None \<Rightarrow> Throws TypeError
      | Some hnode \<Rightarrow>
          eachNode fuel id hnode Down
            (\<lambda>rowNode. eachNode fuel id rowNode Right
               (\<lambda>colNode g. Returns (cover_colNode colNode g))) (unlink_header c h))"
  by (simp only: cover_def unlink_header_def Let_def)

lemma uncover_unfold:
  "uncover fuel c h =
     (case head (header_at h c) of
        None \<Rightarrow> Throws TypeError
      | Some hnode \<Rightarrow>
          and_then
            (eachNode fuel id hnode Up
               (\<lambda>rowNode. eachNode fuel id rowNode Left
                  (\<lambda>colNode g. Returns (uncover_colNode colNode g))) h)
            (\<lambda>h1. Returns (relink_header c h1)))"
  by (simp only: uncover_def relink_header_def Let_def)

lemma unlink_header_nodes [simp]:
  "node_at (unlink_header c h) n = node_at h n"
  "length (nodes (unlink_header c h)) = length (nodes h)"
  "length (headers (unlink_header c h)) = length (headers h)"
  by (simp_all add: unlink_header_def Let_def)

lemma unlink_header_head [simp]:
  "head (header_at (unlink_header c h) d) = head (header_at h d)"
  unfolding unlink_header_def Let_def
  by (simp only: header_at_set_next header_at_set_prev length_headers_set split: if_split) simp

lemma unlink_header_size [simp]:
  "size_of (unlink_header c h) d = size_of h d"
  unfolding unlink_header_def Let_def
  by (simp only: header_at_set_next header_at_set_prev length_headers_set split: if_split) simp

lemma relink_header_nodes [simp]:
  "node_at (relink_header c h) n = node_at h n"
  "length (nodes (relink_header c h)) = length (nodes h)"
  "length (headers (relink_header c h)) = length (headers h)"
  by (simp_all add: relink_header_def Let_def)

lemma relink_header_head [simp]:
  "head (header_at (relink_header c h) d) = head (header_at h d)"
  unfolding relink_header_def Let_def
  by (simp only: header_at_set_next header_at_set_prev length_headers_set split: if_split) simp

lemma relink_header_size [simp]:
  "size_of (relink_header c h) d = size_of h d"
  unfolding relink_header_def Let_def
  by (simp only: header_at_set_next header_at_set_prev length_headers_set split: if_split) simp

lemma unlink_header_shape: "same_shape h (unlink_header c h)"
  by (simp add: same_shape_def)

lemma relink_header_shape: "same_shape h (relink_header c h)"
  by (simp add: same_shape_def)

lemma unlink_header_links:
  assumes "next_of h c < length (headers h)" and "prev_of h c < length (headers h)"
    and "next_of h c \<noteq> c" and "prev_of h c \<noteq> c"
  shows "next_of (unlink_header c h) d = (if d = prev_of h c then next_of h c else next_of h d)"
    and "prev_of (unlink_header c h) d = (if d = next_of h c then prev_of h c else prev_of h d)"
  using assms by (auto simp: unlink_header_def Let_def)

lemma relink_header_links:
  assumes "next_of h c < length (headers h)" and "prev_of h c < length (headers h)"
    and "next_of h c \<noteq> c" and "prev_of h c \<noteq> c"
  shows "next_of (relink_header c h) d = (if d = prev_of h c then c else next_of h d)"
    and "prev_of (relink_header c h) d = (if d = next_of h c then c else prev_of h d)"
  using assms by (auto simp: relink_header_def Let_def)

lemma links_ok_unlink_header:
  assumes "links_ok h" and "c < length (headers h)"
  shows "links_ok (unlink_header c h)"
proof -
  from assms have "next_of h c < length (headers h)" "prev_of h c < length (headers h)"
    by (auto simp: links_ok_def)
  with assms(1) show ?thesis
    unfolding links_ok_def by (auto simp: unlink_header_def Let_def)
qed

lemma unlink_header_ring:
  assumes "links_ok h" and "ring (next_of h) (prev_of h) root cs" and "c \<in> set cs"
    and "c < length (headers h)"
  shows "ring (next_of (unlink_header c h)) (prev_of (unlink_header c h)) root (remove1 c cs)"
proof -
  from assms(3) obtain as bs where s: "cs = as @ c # bs"
    by (auto dest: split_list)
  from assms(2) have "distinct cs"
    by (simp add: ring_def cyc_def)
  with s have rm: "remove1 c cs = as @ bs"
    by (simp add: remove1_append)
  from assms(1,4) have r: "next_of h c < length (headers h)" "prev_of h c < length (headers h)"
    by (auto simp: links_ok_def)
  note sp = ring_split [OF assms(2) s]
  have "ring ((next_of h)(prev_of h c := next_of h c)) ((prev_of h)(next_of h c := prev_of h c))
          root (as @ bs)"
    by (rule ring_unlink [OF assms(2) s])
  also have "?this = ring (next_of (unlink_header c h)) (prev_of (unlink_header c h)) root (as @ bs)"
    by (rule ring_cong) (simp add: unlink_header_links [OF r sp(6) sp(5)])
  finally show ?thesis
    by (simp add: rm)
qed

lemma relink_unlink_header:
  assumes "links_ok h" and "ring (next_of h) (prev_of h) root cs" and "c \<in> set cs"
    and "c < length (headers h)"
  shows "relink_header c (unlink_header c h) = h"
proof (rule heap_eqI)
  let ?g = "unlink_header c h"
  from assms(3) obtain as bs where s: "cs = as @ c # bs"
    by (auto dest: split_list)
  from assms(1,4) have r: "next_of h c < length (headers h)" "prev_of h c < length (headers h)"
    by (auto simp: links_ok_def)
  note sp = ring_split [OF assms(2) s]
  have gn: "next_of ?g c = next_of h c" and gp: "prev_of ?g c = prev_of h c"
    using sp by (simp_all add: unlink_header_links [OF r sp(6) sp(5)])
  have r': "next_of ?g c < length (headers ?g)" "prev_of ?g c < length (headers ?g)"
    "next_of ?g c \<noteq> c" "prev_of ?g c \<noteq> c"
    using r sp gn gp by simp_all
  show "length (nodes (relink_header c ?g)) = length (nodes h)"
    "length (headers (relink_header c ?g)) = length (headers h)"
    by simp_all
  show "node_at (relink_header c ?g) n = node_at h n" for n
    by simp
  show "header_at (relink_header c ?g) d = header_at h d" for d
  proof -
    have "next_of (relink_header c ?g) d = next_of h d"
      using sp by (simp add: relink_header_links [OF r'] gn gp unlink_header_links [OF r sp(6) sp(5)])
    moreover have "prev_of (relink_header c ?g) d = prev_of h d"
      using sp by (simp add: relink_header_links [OF r'] gn gp unlink_header_links [OF r sp(6) sp(5)])
    ultimately show ?thesis
      by (intro column.equality) simp_all
  qed
qed

section \<open>Structures that differ beside a column\<close>

lemma beside_refl: "links_ok h \<Longrightarrow> beside h c h"
  by (simp add: beside_def)

lemma beside_cover_colNode:
  assumes "beside h c t" and "m < length (nodes h)" and "header_of h m \<noteq> c"
  shows "beside h c (cover_colNode m t)"
proof -
  from assms(1) have l: "links_ok t" and sh: "same_shape h t"
    and k: "\<And>n. n < length (nodes h) \<Longrightarrow> header_of h n = c \<Longrightarrow>
        down_of t n = down_of h n \<and> up_of t n = up_of h n"
    by (auto simp: beside_def)
  from assms(2) sh have m: "m < length (nodes t)"
    by (simp add: same_shape_def)
  with l have r: "up_of t m < length (nodes t)" "down_of t m < length (nodes t)"
    "header_of t (up_of t m) = header_of t m" "header_of t (down_of t m) = header_of t m"
    by (auto simp: links_ok_def)
  have hm: "header_of t m \<noteq> c" and ht: "\<And>n. header_of t n = header_of h n"
    using assms(3) sh by (simp_all add: same_shape_def)
  have "down_of (cover_colNode m t) n = down_of h n \<and> up_of (cover_colNode m t) n = up_of h n"
    if "n < length (nodes h)" "header_of h n = c" for n
    using that k [OF that] r hm ht
    by (auto simp: cover_colNode_down [OF r(1)] cover_colNode_up [OF r(2)])
  moreover have "links_ok (cover_colNode m t)"
    by (rule links_ok_cover_colNode [OF l m])
  moreover have "same_shape h (cover_colNode m t)"
    by (rule same_shape_trans [OF sh cover_colNode_shape])
  ultimately show ?thesis
    by (simp add: beside_def)
qed

lemma beside_uncover_colNode:
  assumes "beside h c t" and "m < length (nodes h)" and "header_of h m \<noteq> c"
  shows "beside h c (uncover_colNode m t)"
proof -
  from assms(1) have l: "links_ok t" and sh: "same_shape h t"
    and k: "\<And>n. n < length (nodes h) \<Longrightarrow> header_of h n = c \<Longrightarrow>
        down_of t n = down_of h n \<and> up_of t n = up_of h n"
    by (auto simp: beside_def)
  from assms(2) sh have m: "m < length (nodes t)"
    by (simp add: same_shape_def)
  with l have r: "up_of t m < length (nodes t)" "down_of t m < length (nodes t)"
    "header_of t (up_of t m) = header_of t m" "header_of t (down_of t m) = header_of t m"
    by (auto simp: links_ok_def)
  have hm: "header_of t m \<noteq> c" and ht: "\<And>n. header_of t n = header_of h n"
    using assms(3) sh by (simp_all add: same_shape_def)
  from uncover_colNode_up_any [OF r(2) m] obtain q where q: "q = m \<or> q = down_of t m"
    "\<And>n. up_of (uncover_colNode m t) n = (if n = q then m else up_of t n)"
    by blast
  have "down_of (uncover_colNode m t) n = down_of h n \<and> up_of (uncover_colNode m t) n = up_of h n"
    if "n < length (nodes h)" "header_of h n = c" for n
    using that k [OF that] r hm ht q(1)
    by (auto simp: uncover_colNode_down [OF r(1)] q(2))
  moreover have "links_ok (uncover_colNode m t)"
    by (rule links_ok_uncover_colNode [OF l m])
  moreover have "same_shape h (uncover_colNode m t)"
    by (rule same_shape_trans [OF sh uncover_colNode_shape])
  ultimately show ?thesis
    by (simp add: beside_def)
qed

lemma beside_fold_cover:
  "beside h c t \<Longrightarrow> \<forall>m\<in>set L. m < length (nodes h) \<and> header_of h m \<noteq> c \<Longrightarrow>
   beside h c (fold cover_colNode L t)"
  by (induction L arbitrary: t) (simp_all add: beside_cover_colNode)

lemma beside_fold_uncover:
  "beside h c t \<Longrightarrow> \<forall>m\<in>set L. m < length (nodes h) \<and> header_of h m \<noteq> c \<Longrightarrow>
   beside h c (fold uncover_colNode L t)"
  by (induction L arbitrary: t) (simp_all add: beside_uncover_colNode)

lemma beside_ring:
  assumes "beside h c t" and "column_ok h c ns"
  obtains hn where "head (header_at t c) = Some hn" and "hn < length (nodes h)"
    and "ring (down_of t) (up_of t) hn ns"
proof -
  from column_ok_head [OF assms(2)] obtain hn where hn: "head (header_at h c) = Some hn"
    "hn < length (nodes h)" "header_of h hn = c" "ring (down_of h) (up_of h) hn ns"
    by blast
  have "ring (down_of t) (up_of t) hn ns = ring (down_of h) (up_of h) hn ns"
    by (rule ring_cong) (use hn assms(1) column_ok_node [OF assms(2)] in \<open>auto simp: beside_def\<close>)
  with hn assms(1) that show ?thesis
    by (auto simp: beside_def same_shape_def)
qed

section \<open>What cover and uncover compute\<close>

lemma distinct_length_le:
  assumes "distinct xs" and "\<forall>x\<in>set xs. x < (n::nat)"
  shows "length xs \<le> n"
proof -
  have "card (set xs) \<le> card {..<n}"
    by (rule card_mono) (use assms(2) in auto)
  with assms(1) show ?thesis
    by (simp add: distinct_card)
qed

lemma ring_walk:
  assumes "ring f g z xs"
  shows "walk f z (f z) xs" and "walk g z (g z) (rev xs)"
  using assms by (auto simp: ring_def intro: cyc_walk)

lemma run_list_nested:
  assumes "I s"
    and "\<And>x t. x \<in> set xs \<Longrightarrow> I t \<Longrightarrow> F x t = Returns (fold g (L x) t) \<and> I (fold g (L x) t)"
  shows "run_list F xs s = Returns (fold g (concat (map L xs)) s) \<and>
         I (fold g (concat (map L xs)) s)"
  using assms
proof (induction xs arbitrary: s)
  case Nil
  then show ?case by simp
next
  case (Cons x xs)
  from Cons.prems(2) [of x s] Cons.prems(1)
  have x: "F x s = Returns (fold g (L x) s)" "I (fold g (L x) s)"
    by simp_all
  from Cons.IH [OF x(2)] Cons.prems(2)
  have "run_list F xs (fold g (L x) s) = Returns (fold g (concat (map L xs)) (fold g (L x) s)) \<and>
        I (fold g (concat (map L xs)) (fold g (L x) s))"
    by simp
  with x(1) show ?case
    by simp
qed

lemma distinct_concat_map:
  assumes "distinct xs" and "\<And>x. x \<in> set xs \<Longrightarrow> distinct (L x)"
    and "\<And>x y. x \<in> set xs \<Longrightarrow> y \<in> set xs \<Longrightarrow> x \<noteq> y \<Longrightarrow> set (L x) \<inter> set (L y) = {}"
  shows "distinct (concat (map L xs))"
  using assms
proof (induction xs)
  case (Cons x xs)
  have "set (L x) \<inter> set (L y) = {}" if "y \<in> set xs" for y
    using Cons.prems(1) Cons.prems(3) [of x y] that by auto
  then have "set (L x) \<inter> (\<Union>y\<in>set xs. set (L y)) = {}"
    by blast
  moreover have "distinct (concat (map L xs))"
    using Cons by simp
  ultimately show ?case
    using Cons.prems(2) by simp
qed simp

text \<open>
  The inner loops, on a structure of the shape of \<open>h\<close>: the horizontal links
  are never assigned, so the loop visits the row as it is in \<open>h\<close>.
\<close>

lemma cover_row_loop:
  assumes "same_shape h t" and "ring (right_of h) (left_of h) r ms" and "length ms < fuel"
  shows "eachNode fuel id r Right (\<lambda>colNode g. Returns (cover_colNode colNode g)) t
         = Returns (fold cover_colNode ms t)"
proof -
  have w: "walk (right_of h) r (right_of h r) ms"
    using assms(2) by (rule ring_walk)
  have "eachNode_from fuel id r Right (\<lambda>colNode g. Returns (cover_colNode colNode g))
          (right_of h r) t
        = run_list (\<lambda>colNode g. Returns (cover_colNode colNode g)) ms t"
  proof (rule eachNode_from_run_list [where I = "same_shape h", OF w assms(3,1)])
    fix x t t'
    assume "same_shape h t" "Returns (cover_colNode x t) = Returns t'"
    then show "same_shape h t'"
      using same_shape_trans [OF _ cover_colNode_shape] by auto
  next
    fix x t
    assume "same_shape h t"
    then show "node_field Right (node_at (id t) x) = right_of h x"
      by (simp add: same_shape_def)
  qed
  moreover have "right_of t r = right_of h r"
    using assms(1) by (simp add: same_shape_def)
  ultimately show ?thesis
    by (simp add: eachNode_def run_list_pure)
qed

lemma uncover_row_loop:
  assumes "same_shape h t" and "ring (right_of h) (left_of h) r ms" and "length ms < fuel"
  shows "eachNode fuel id r Left (\<lambda>colNode g. Returns (uncover_colNode colNode g)) t
         = Returns (fold uncover_colNode (rev ms) t)"
proof -
  have w: "walk (left_of h) r (left_of h r) (rev ms)"
    using assms(2) by (rule ring_walk)
  have len: "length (rev ms) < fuel"
    using assms(3) by simp
  have "eachNode_from fuel id r Left (\<lambda>colNode g. Returns (uncover_colNode colNode g))
          (left_of h r) t
        = run_list (\<lambda>colNode g. Returns (uncover_colNode colNode g)) (rev ms) t"
  proof (rule eachNode_from_run_list [where I = "same_shape h", OF w len assms(1)])
    fix x t t'
    assume "same_shape h t" "Returns (uncover_colNode x t) = Returns t'"
    then show "same_shape h t'"
      using same_shape_trans [OF _ uncover_colNode_shape] by auto
  next
    fix x t
    assume "same_shape h t"
    then show "node_field Left (node_at (id t) x) = left_of h x"
      by (simp add: same_shape_def)
  qed
  moreover have "left_of t r = left_of h r"
    using assms(1) by (simp add: same_shape_def)
  ultimately show ?thesis
    by (simp add: eachNode_def run_list_pure)
qed

text \<open>
  \<open>cover\<close> on a column with the nodes \<open>ns\<close>, whose rows have the other nodes
  \<open>rw\<close>: the header leaves the ring and the other nodes of the rows are spliced
  out, row by row. \<open>uncover\<close> splices them back in the reverse order.
\<close>

lemma cover_computes:
  assumes l: "links_ok h" and col: "column_ok h c ns"
    and rows: "\<forall>r\<in>set ns. ring (right_of h) (left_of h) r (rw r) \<and>
                 (\<forall>m\<in>set (rw r). m < length (nodes h) \<and> header_of h m \<noteq> c)"
    and fuel: "length (nodes h) < fuel"
  shows "cover fuel c h = Returns (fold cover_colNode (concat (map rw ns)) (unlink_header c h))"
    and "beside h c (fold cover_colNode (concat (map rw ns)) (unlink_header c h))"
proof -
  let ?h2 = "unlink_header c h"
  let ?G = "\<lambda>colNode g. Returns (cover_colNode colNode g)"
  let ?F = "\<lambda>rowNode. eachNode fuel id rowNode Right ?G"
  from column_ok_head [OF col] obtain hn where hn: "head (header_at h c) = Some hn"
    "hn < length (nodes h)" "header_of h hn = c" "ring (down_of h) (up_of h) hn ns"
    by blast
  have c: "c < length (headers h)"
    by (rule column_ok_header_range [OF col])
  have b2: "beside h c ?h2"
    using links_ok_unlink_header [OF l c] by (simp add: beside_def unlink_header_shape)
  have inner: "?F r t = Returns (fold cover_colNode (rw r) t) \<and> beside h c (fold cover_colNode (rw r) t)"
    if "r \<in> set ns" "beside h c t" for r t
  proof -
    from rows that(1) have r: "ring (right_of h) (left_of h) r (rw r)"
      "\<forall>m\<in>set (rw r). m < length (nodes h) \<and> header_of h m \<noteq> c"
      by auto
    have "distinct (rw r)"
      using r(1) by (simp add: ring_def cyc_def)
    then have "length (rw r) \<le> length (nodes h)"
      by (rule distinct_length_le) (use r(2) in auto)
    with fuel have "length (rw r) < fuel"
      by simp
    with that(2) r(1) have "?F r t = Returns (fold cover_colNode (rw r) t)"
      by (intro cover_row_loop) (auto simp: beside_def)
    with beside_fold_cover [OF that(2) r(2)] show ?thesis
      by simp
  qed
  have w: "walk (down_of h) hn (down_of h hn) ns"
    using hn(4) by (rule ring_walk)
  have "length ns \<le> length (nodes h)"
    by (rule distinct_length_le [OF column_ok_distinct [OF col]])
       (use column_ok_node [OF col] in auto)
  with fuel have len: "length ns < fuel"
    by simp
  have "eachNode_from fuel id hn Down ?F (down_of h hn) ?h2 = run_list ?F ns ?h2"
  proof (rule eachNode_from_run_list [where I = "beside h c", OF w len b2])
    fix x t t'
    assume "x \<in> set ns" "beside h c t" "?F x t = Returns t'"
    then show "beside h c t'"
      using inner [of x t] by simp
  next
    fix x t
    assume "x \<in> set ns" "beside h c t"
    then show "node_field Down (node_at (id t) x) = down_of h x"
      using column_ok_node [OF col, of x] by (simp add: beside_def)
  qed
  moreover from run_list_nested [where I = "beside h c" and F = ?F and g = cover_colNode and L = rw
      and xs = ns, OF b2 inner]
  have "run_list ?F ns ?h2 = Returns (fold cover_colNode (concat (map rw ns)) ?h2)"
    and b: "beside h c (fold cover_colNode (concat (map rw ns)) ?h2)"
    by simp_all
  ultimately show "cover fuel c h = Returns (fold cover_colNode (concat (map rw ns)) ?h2)"
    using hn by (simp add: cover_unfold eachNode_def)
  show "beside h c (fold cover_colNode (concat (map rw ns)) ?h2)"
    by (rule b)
qed

lemma uncover_computes:
  assumes b: "beside h c g" and col: "column_ok h c ns"
    and rows: "\<forall>r\<in>set ns. ring (right_of h) (left_of h) r (rw r) \<and>
                 (\<forall>m\<in>set (rw r). m < length (nodes h) \<and> header_of h m \<noteq> c)"
    and fuel: "length (nodes h) < fuel"
  shows "uncover fuel c g
         = Returns (relink_header c (fold uncover_colNode (rev (concat (map rw ns))) g))"
proof -
  let ?G = "\<lambda>colNode g. Returns (uncover_colNode colNode g)"
  let ?F = "\<lambda>rowNode. eachNode fuel id rowNode Left ?G"
  from column_ok_head [OF col] obtain hn where hn: "head (header_at h c) = Some hn"
    "hn < length (nodes h)" "header_of h hn = c" "ring (down_of h) (up_of h) hn ns"
    by blast
  have hg: "head (header_at g c) = Some hn" and ug: "up_of g hn = up_of h hn"
    using b hn by (auto simp: beside_def same_shape_def)
  have inner: "?F r t = Returns (fold uncover_colNode (rev (rw r)) t) \<and>
      beside h c (fold uncover_colNode (rev (rw r)) t)"
    if "r \<in> set ns" "beside h c t" for r t
  proof -
    from rows that(1) have r: "ring (right_of h) (left_of h) r (rw r)"
      "\<forall>m\<in>set (rw r). m < length (nodes h) \<and> header_of h m \<noteq> c"
      by auto
    have "distinct (rw r)"
      using r(1) by (simp add: ring_def cyc_def)
    then have "length (rw r) \<le> length (nodes h)"
      by (rule distinct_length_le) (use r(2) in auto)
    with fuel have "length (rw r) < fuel"
      by simp
    with that(2) r(1) have "?F r t = Returns (fold uncover_colNode (rev (rw r)) t)"
      by (intro uncover_row_loop) (auto simp: beside_def)
    moreover have "beside h c (fold uncover_colNode (rev (rw r)) t)"
      by (rule beside_fold_uncover [OF that(2)]) (use r(2) in auto)
    ultimately show ?thesis
      by simp
  qed
  have w: "walk (up_of h) hn (up_of h hn) (rev ns)"
    using hn(4) by (rule ring_walk)
  have "length ns \<le> length (nodes h)"
    by (rule distinct_length_le [OF column_ok_distinct [OF col]])
       (use column_ok_node [OF col] in auto)
  with fuel have len: "length (rev ns) < fuel"
    by simp
  have "eachNode_from fuel id hn Up ?F (up_of h hn) g = run_list ?F (rev ns) g"
  proof (rule eachNode_from_run_list [where I = "beside h c", OF w len b])
    fix x t t'
    assume "x \<in> set (rev ns)" "beside h c t" "?F x t = Returns t'"
    then show "beside h c t'"
      using inner [of x t] by simp
  next
    fix x t
    assume "x \<in> set (rev ns)" "beside h c t"
    then show "node_field Up (node_at (id t) x) = up_of h x"
      using column_ok_node [OF col, of x] by (simp add: beside_def)
  qed
  moreover from run_list_nested [where I = "beside h c" and F = ?F and g = uncover_colNode
      and L = "\<lambda>r. rev (rw r)" and xs = "rev ns", OF b] inner
  have "run_list ?F (rev ns) g
      = Returns (fold uncover_colNode (concat (map (\<lambda>r. rev (rw r)) (rev ns))) g)"
    by simp
  moreover have "concat (map (\<lambda>r. rev (rw r)) (rev ns)) = rev (concat (map rw ns))"
    by (simp add: rev_concat rev_map comp_def)
  ultimately show ?thesis
    using hg ug by (simp add: uncover_unfold eachNode_def)
qed

section \<open>cover keeps the invariant, and uncover undoes it\<close>

lemma rows_ok_shape: "same_shape h g \<Longrightarrow> rows_ok h \<Longrightarrow> rows_ok g"
  unfolding rows_ok_def row_ring_ok_def same_shape_def by simp

lemma rows_ok_choice:
  assumes "rows_ok h"
  obtains rw where "\<And>n. n < length (nodes h) \<Longrightarrow> row_of h n \<noteq> None \<Longrightarrow>
      ring (right_of h) (left_of h) n (rw n) \<and>
      set (rw n) = {m. m < length (nodes h) \<and> m \<noteq> n \<and> row_of h m = row_of h n} \<and>
      distinct (map (header_of h) (n # rw n))"
proof -
  have "\<forall>n\<in>{n. n < length (nodes h) \<and> row_of h n \<noteq> None}.
      \<exists>ms. ring (right_of h) (left_of h) n ms \<and>
        set ms = {m. m < length (nodes h) \<and> m \<noteq> n \<and> row_of h m = row_of h n} \<and>
        distinct (map (header_of h) (n # ms))"
    using assms unfolding rows_ok_def row_ring_ok_def by simp
  from bchoice [OF this] obtain rw where
    "\<forall>n\<in>{n. n < length (nodes h) \<and> row_of h n \<noteq> None}.
       ring (right_of h) (left_of h) n (rw n) \<and>
       set (rw n) = {m. m < length (nodes h) \<and> m \<noteq> n \<and> row_of h m = row_of h n} \<and>
       distinct (map (header_of h) (n # rw n))"
    by blast
  then have "\<And>n. n < length (nodes h) \<Longrightarrow> row_of h n \<noteq> None \<Longrightarrow>
      ring (right_of h) (left_of h) n (rw n) \<and>
      set (rw n) = {m. m < length (nodes h) \<and> m \<noteq> n \<and> row_of h m = row_of h n} \<and>
      distinct (map (header_of h) (n # rw n))"
    by blast
  then show ?thesis
    by (rule that)
qed

lemma column_ok_unlink_header:
  "column_ok h d ws \<Longrightarrow> column_ok (unlink_header c h) d ws"
  by (rule column_ok_kept) (simp_all add: unlink_header_shape)

lemma search_inv_parts:
  assumes "search_inv h root cs vs"
  shows "links_ok h" and "rows_ok h" and "root < length (headers h)"
    and "ring (next_of h) (prev_of h) root cs"
    and "\<And>c. c \<in> set cs \<Longrightarrow> column_ok h c (vs c)"
    and "\<And>c n m. c \<in> set cs \<Longrightarrow> n \<in> set (vs c) \<Longrightarrow> m < length (nodes h) \<Longrightarrow>
           row_of h m = row_of h n \<Longrightarrow> header_of h m \<in> set cs \<and> m \<in> set (vs (header_of h m))"
  using assms unfolding search_inv_def by blast+

lemma cover_spec:
  assumes inv: "search_inv h root cs vs" and c: "c \<in> set cs" and fuel: "length (nodes h) < fuel"
  shows "\<exists>g. cover fuel c h = Returns g \<and> uncover fuel c g = Returns h \<and> same_shape h g \<and>
     search_inv g root (remove1 c cs) (hide_rows h vs c) \<and> column_ok g c (vs c) \<and>
     (\<forall>d. d \<notin> set (remove1 c cs) \<longrightarrow> size_of g d = size_of h d)"
proof -
  note p = search_inv_parts [OF inv]
  let ?N = "length (nodes h)"
  let ?h2 = "unlink_header c h"
  from rows_ok_choice [OF p(2)] obtain rw where rw: "\<And>n. n < ?N \<Longrightarrow> row_of h n \<noteq> None \<Longrightarrow>
      ring (right_of h) (left_of h) n (rw n) \<and>
      set (rw n) = {m. m < ?N \<and> m \<noteq> n \<and> row_of h m = row_of h n} \<and>
      distinct (map (header_of h) (n # rw n))"
    by blast
  let ?L = "concat (map rw (vs c))"
  let ?g = "fold cover_colNode ?L ?h2"
  have col: "column_ok h c (vs c)"
    by (rule p(5) [OF c])
  have dcs: "distinct cs"
    using p(4) by (simp add: ring_def cyc_def)
  have ch: "c < length (headers h)"
    by (rule column_ok_header_range [OF col])
  have vc: "r < ?N \<and> header_of h r = c \<and> row_of h r \<noteq> None" if "r \<in> set (vs c)" for r
    by (rule column_ok_node [OF col that])
  have rwr: "ring (right_of h) (left_of h) r (rw r)"
    "set (rw r) = {m. m < ?N \<and> m \<noteq> r \<and> row_of h m = row_of h r}"
    "distinct (map (header_of h) (r # rw r))" if "r \<in> set (vs c)" for r
  proof -
    from vc [OF that] have "r < ?N" "row_of h r \<noteq> None"
      by simp_all
    note x = rw [OF this]
    show "ring (right_of h) (left_of h) r (rw r)"
      "set (rw r) = {m. m < ?N \<and> m \<noteq> r \<and> row_of h m = row_of h r}"
      "distinct (map (header_of h) (r # rw r))"
      using x [THEN conjunct1] x [THEN conjunct2, THEN conjunct1] x [THEN conjunct2, THEN conjunct2]
      by - assumption+
  qed
  have rwm: "m < ?N \<and> header_of h m \<noteq> c \<and> row_of h m = row_of h r \<and>
      header_of h m \<in> set cs \<and> m \<in> set (vs (header_of h m))"
    if "r \<in> set (vs c)" "m \<in> set (rw r)" for r m
  proof -
    from rwr(2) [OF that(1)] that(2) have m: "m < ?N" "row_of h m = row_of h r"
      by auto
    have "header_of h r \<notin> header_of h ` set (rw r)"
      using rwr(3) [OF that(1)] by simp
    moreover have "header_of h m \<in> header_of h ` set (rw r)"
      using that(2) by (rule imageI)
    ultimately have "header_of h m \<noteq> header_of h r"
      by metis
    with vc [OF that(1)] m p(6) [OF c that(1) m] show ?thesis
      by simp
  qed
  have rows: "\<forall>r\<in>set (vs c). ring (right_of h) (left_of h) r (rw r) \<and>
                 (\<forall>m\<in>set (rw r). m < ?N \<and> header_of h m \<noteq> c)"
    using rwr(1) rwm by blast
  have cov: "cover fuel c h = Returns ?g" and bes: "beside h c ?g"
    by (rule cover_computes [OF p(1) col rows fuel])+
  \<comment> \<open>the nodes taken out\<close>
  have inL: "n \<in> set ?L \<longleftrightarrow> row_of h n \<in> row_of h ` set (vs c)"
    if "j \<in> set cs" "j \<noteq> c" "n \<in> set (vs j)" for j n
  proof
    assume "n \<in> set ?L"
    then obtain r where r: "r \<in> set (vs c)" "n \<in> set (rw r)"
      by auto
    from rwm [OF r] have "row_of h n = row_of h r"
      by simp
    with r(1) show "row_of h n \<in> row_of h ` set (vs c)"
      by (simp add: image_iff) metis
  next
    assume "row_of h n \<in> row_of h ` set (vs c)"
    then obtain r where r: "r \<in> set (vs c)" "row_of h n = row_of h r"
      by auto
    from column_ok_node [OF p(5) [OF that(1)] that(3)] have n: "n < ?N" "header_of h n = j"
      by simp_all
    with vc [OF r(1)] that(2) have "n \<noteq> r"
      by auto
    with n r(2) have "n \<in> {m. m < ?N \<and> m \<noteq> r \<and> row_of h m = row_of h r}"
      by simp
    then have "n \<in> set (rw r)"
      by (simp only: rwr(2) [OF r(1)])
    with r(1) show "n \<in> set ?L"
      by auto
  qed
  have dL: "distinct ?L"
  proof (rule distinct_concat_map)
    show "distinct (vs c)"
      by (rule column_ok_distinct [OF col])
    show "distinct (rw r)" if "r \<in> set (vs c)" for r
      using rwr(1) [OF that] by (simp add: ring_def cyc_def)
    show "set (rw x) \<inter> set (rw y) = {}" if "x \<in> set (vs c)" "y \<in> set (vs c)" "x \<noteq> y" for x y
    proof (rule ccontr)
      assume "set (rw x) \<inter> set (rw y) \<noteq> {}"
      then obtain m where m: "m \<in> set (rw x)" "m \<in> set (rw y)"
        by auto
      from rwm [OF that(1) m(1)] rwm [OF that(2) m(2)] have "row_of h y = row_of h x"
        by simp
      with vc [OF that(2)] that(3) have "y \<in> {m. m < ?N \<and> m \<noteq> x \<and> row_of h m = row_of h x}"
        by simp
      then have "y \<in> set (rw x)"
        by (simp only: rwr(2) [OF that(1)])
      from rwm [OF that(1) this] vc [OF that(2)] show False
        by simp
    qed
  qed
  have l2: "links_ok ?h2"
    by (rule links_ok_unlink_header [OF p(1) ch])
  have c2: "\<forall>d\<in>set cs. column_ok ?h2 d (vs d)"
    using p(5) by (auto intro: column_ok_unlink_header)
  have m2: "\<forall>m\<in>set ?L. header_of ?h2 m \<in> set cs \<and> m \<in> set (vs (header_of ?h2 m))"
  proof
    fix m assume "m \<in> set ?L"
    then obtain r where r: "r \<in> set (vs c)" "m \<in> set (rw r)"
      by auto
    from rwm [OF r] show "header_of ?h2 m \<in> set cs \<and> m \<in> set (vs (header_of ?h2 m))"
      by simp
  qed
  note F = fold_cover_colNode [OF l2 c2 dL m2]
  have f: "links_ok ?g" "same_shape ?h2 ?g"
    "\<forall>d\<in>set cs. column_ok ?g d (filter (\<lambda>n. n \<notin> set ?L) (vs d))"
    "\<forall>d. next_of ?g d = next_of ?h2 d \<and> prev_of ?g d = prev_of ?h2 d"
    "\<forall>d. d \<notin> header_of ?h2 ` set ?L \<longrightarrow> size_of ?g d = size_of ?h2 d"
    "fold uncover_colNode (rev ?L) ?g = ?h2"
    using F [THEN conjunct1] F [THEN conjunct2, THEN conjunct1]
      F [THEN conjunct2, THEN conjunct2, THEN conjunct1]
      F [THEN conjunct2, THEN conjunct2, THEN conjunct2, THEN conjunct1]
      F [THEN conjunct2, THEN conjunct2, THEN conjunct2, THEN conjunct2, THEN conjunct1]
      F [THEN conjunct2, THEN conjunct2, THEN conjunct2, THEN conjunct2, THEN conjunct2]
    by - assumption+
  have sh: "same_shape h ?g"
    by (rule same_shape_trans [OF unlink_header_shape f(2)])
  have rowg: "row_of ?g n = row_of h n" and hdrg: "header_of ?g n = header_of h n"
    and Ng: "length (nodes ?g) = ?N" and Hg: "length (headers ?g) = length (headers h)" for n
    using sh by (simp_all add: same_shape_def)
  \<comment> \<open>uncover undoes it\<close>
  have "uncover fuel c ?g = Returns (relink_header c (fold uncover_colNode (rev ?L) ?g))"
    by (rule uncover_computes [OF bes col rows fuel])
  also have "\<dots> = Returns h"
    using f(6) relink_unlink_header [OF p(1) p(4) c ch] by simp
  finally have unc: "uncover fuel c ?g = Returns h" .
  \<comment> \<open>the invariant afterwards\<close>
  have colc: "column_ok ?g c (vs c)"
  proof -
    have "n \<notin> set ?L" if "n \<in> set (vs c)" for n
    proof
      assume "n \<in> set ?L"
      then obtain r where r: "r \<in> set (vs c)" "n \<in> set (rw r)"
        by auto
      from rwm [OF r] vc [OF that] show False
        by simp
    qed
    then have "filter (\<lambda>n. n \<notin> set ?L) (vs c) = vs c"
      by (simp add: filter_id_conv)
    with f(3) c show ?thesis
      by auto
  qed
  have ring': "ring (next_of ?g) (prev_of ?g) root (remove1 c cs)"
  proof -
    have "ring (next_of ?g) (prev_of ?g) root (remove1 c cs)
        = ring (next_of ?h2) (prev_of ?h2) root (remove1 c cs)"
      by (rule ring_cong) (simp add: f(4))
    with unlink_header_ring [OF p(1) p(4) c ch] show ?thesis
      by simp
  qed
  have cols': "column_ok ?g j (hide_rows h vs c j)" if "j \<in> set (remove1 c cs)" for j
  proof -
    from that dcs have j: "j \<in> set cs" "j \<noteq> c"
      by auto
    have "filter (\<lambda>n. n \<notin> set ?L) (vs j) = hide_rows h vs c j"
      unfolding hide_rows_def
    proof (rule filter_cong [OF refl])
      fix n assume "n \<in> set (vs j)"
      from inL [OF j this] show "(n \<notin> set ?L) = (row_of h n \<notin> row_of h ` set (vs c))"
        by (rule arg_cong)
    qed
    with f(3) j(1) show ?thesis
      by auto
  qed
  have act': "header_of ?g m \<in> set (remove1 c cs) \<and> m \<in> set (hide_rows h vs c (header_of ?g m))"
    if "j \<in> set (remove1 c cs)" "n \<in> set (hide_rows h vs c j)" "m < length (nodes ?g)"
      "row_of ?g m = row_of ?g n" for j n m
  proof -
    from that(1) dcs have j: "j \<in> set cs" "j \<noteq> c"
      by auto
    from that(2) have n: "n \<in> set (vs j)" "row_of h n \<notin> row_of h ` set (vs c)"
      by (simp_all add: hide_rows_def)
    from that(3,4) have m: "m < ?N" "row_of h m = row_of h n"
      by (simp_all add: rowg Ng)
    from p(6) [OF j(1) n(1) m] have hm: "header_of h m \<in> set cs" "m \<in> set (vs (header_of h m))"
      by simp_all
    have "header_of h m \<noteq> c"
    proof
      assume "header_of h m = c"
      with hm(2) have "row_of h m \<in> row_of h ` set (vs c)"
        by auto
      with m(2) n(2) show False
        by simp
    qed
    with hm dcs m(2) n(2) show ?thesis
      by (simp add: hdrg hide_rows_def)
  qed
  have inv': "search_inv ?g root (remove1 c cs) (hide_rows h vs c)"
    unfolding search_inv_def
    using f(1) rows_ok_shape [OF sh p(2)] p(3) ring' cols' act' by (simp add: Hg)
  have sizes: "\<forall>d. d \<notin> set (remove1 c cs) \<longrightarrow> size_of ?g d = size_of h d"
  proof (intro allI impI)
    fix d assume d: "d \<notin> set (remove1 c cs)"
    have "d \<notin> header_of ?h2 ` set ?L"
    proof
      assume "d \<in> header_of ?h2 ` set ?L"
      then obtain r m where r: "r \<in> set (vs c)" "m \<in> set (rw r)" and dm: "d = header_of h m"
        by auto
      from rwm [OF r] dm have "d \<in> set cs" "d \<noteq> c"
        by simp_all
      with d dcs show False
        by simp
    qed
    with f(5) show "size_of ?g d = size_of h d"
      by simp
  qed
  from cov unc sh inv' colc sizes show ?thesis
    by blast
qed

section \<open>Rings that grow\<close>

lemma cyc_rotate:
  assumes "cyc f z (as @ m # bs)"
  shows "cyc f m (bs @ z # as)"
proof -
  from assms have ch: "chain f (f z) (as @ m # bs) z" and d: "distinct (z # as @ m # bs)"
    by (simp_all add: cyc_def)
  from ch have "chain f (f z) as m" "chain f (f m) bs z"
    by (auto simp: chain_append)
  then have "chain f (f m) (bs @ z # as) m"
    by (auto simp: chain_append)
  moreover from d have "distinct (m # bs @ z # as)"
    by auto
  ultimately show ?thesis
    by (simp add: cyc_def)
qed

lemma ring_rotate:
  assumes "ring f g z (as @ m # bs)"
  shows "ring f g m (bs @ z # as)"
proof -
  from assms have "cyc f z (as @ m # bs)" "cyc g z (rev bs @ m # rev as)"
    by (simp_all add: ring_def)
  then have "cyc f m (bs @ z # as)" "cyc g m (rev as @ z # rev bs)"
    by (auto dest: cyc_rotate)
  then show ?thesis
    by (simp add: ring_def)
qed

lemma cyc_append:
  assumes "cyc f z xs" and "n \<notin> set (z # xs)"
  shows "cyc (f(n := z, last (z # xs) := n)) z (xs @ [n])"
proof -
  let ?l = "last (z # xs)"
  let ?f = "f(n := z, ?l := n)"
  from assms have ch: "chain f (f z) xs z" and d: "distinct (z # xs)"
    by (simp_all add: cyc_def)
  have ln: "?l \<noteq> n"
    using assms(2) by (cases xs rule: rev_cases) auto
  have "chain ?f (?f z) (xs @ [n]) z"
  proof (cases xs rule: rev_cases)
    case Nil
    then show ?thesis by simp
  next
    case (snoc ys y)
    with ch have ys: "chain f (f z) ys y"
      by (auto simp: chain_append)
    have "chain ?f (f z) ys y = chain f (f z) ys y"
      by (rule chain_cong) (use d assms(2) snoc in auto)
    with ys have "chain ?f (f z) ys y"
      by simp
    moreover have "?f z = f z"
      using d assms(2) snoc by auto
    ultimately show ?thesis
      using snoc ln by (auto simp: chain_append)
  qed
  moreover have "distinct (z # xs @ [n])"
    using d assms(2) by auto
  ultimately show ?thesis
    by (simp add: cyc_def)
qed

lemma cyc_prepend:
  assumes "cyc g z xs" and "n \<notin> set (z # xs)"
  shows "cyc (g(n := g z, z := n)) z (n # xs)"
proof -
  let ?g = "g(n := g z, z := n)"
  from assms have ch: "chain g (g z) xs z" and d: "distinct (z # xs)"
    by (simp_all add: cyc_def)
  have "chain ?g (g z) xs z = chain g (g z) xs z"
    by (rule chain_cong) (use d assms(2) in auto)
  with ch have "chain ?g (?g z) (n # xs) z"
    using assms(2) by simp
  moreover have "distinct (z # n # xs)"
    using d assms(2) by auto
  ultimately show ?thesis
    by (simp add: cyc_def)
qed

text \<open>A node linked in before \<open>z\<close>, that is after the last node of the ring.\<close>

lemma ring_append:
  assumes "ring f g z xs" and "n \<notin> set (z # xs)"
  shows "ring (f(n := z, g z := n)) (g(n := g z, z := n)) z (xs @ [n])"
proof -
  from assms(1) have cf: "cyc f z xs" and cg: "cyc g z (rev xs)"
    by (simp_all add: ring_def)
  have gz: "g z = last (z # xs)"
    using cg by (cases xs rule: rev_cases) (auto simp: cyc_def)
  have "cyc (f(n := z, last (z # xs) := n)) z (xs @ [n])"
    by (rule cyc_append [OF cf assms(2)])
  moreover have "cyc (g(n := g z, z := n)) z (n # rev xs)"
    by (rule cyc_prepend [OF cg]) (use assms(2) in auto)
  ultimately show ?thesis
    by (simp add: ring_def gz)
qed

lemma ring_single: "ring f g z [] \<longleftrightarrow> f z = z \<and> g z = z"
  by (auto simp: ring_def cyc_def)

lemma ring_last: "ring f g z xs \<Longrightarrow> g z = last (z # xs)"
  by (cases xs rule: rev_cases) (auto simp: ring_def cyc_def)

lemma ring_first: "ring f g z xs \<Longrightarrow> f z = hd (xs @ [z])"
  by (cases xs) (auto simp: ring_def cyc_def)

lemma ring_last_next: "ring f g z xs \<Longrightarrow> f (last (z # xs)) = z"
  by (cases xs rule: rev_cases) (auto simp: ring_def cyc_def chain_append)

section \<open>Creating a node\<close>

lemma node_at_set_left [simp]:
  "node_at (set_left n v h) m =
     (if m = n \<and> n < length (nodes h) then (node_at h n)\<lparr>left := v\<rparr> else node_at h m)"
  by (auto simp: node_at_def set_left_def nth_list_update list_update_beyond)

lemma node_at_set_right [simp]:
  "node_at (set_right n v h) m =
     (if m = n \<and> n < length (nodes h) then (node_at h n)\<lparr>right := v\<rparr> else node_at h m)"
  by (auto simp: node_at_def set_right_def nth_list_update list_update_beyond)

lemma node_at_set_rowNumber [simp]:
  "node_at (set_rowNumber n v h) m =
     (if m = n \<and> n < length (nodes h) then (node_at h n)\<lparr>rowNumber := v\<rparr> else node_at h m)"
  by (auto simp: node_at_def set_rowNumber_def nth_list_update list_update_beyond)

lemma header_at_set_head [simp]:
  "header_at (set_head c v h) d =
     (if d = c \<and> c < length (headers h) then (header_at h c)\<lparr>head := v\<rparr> else header_at h d)"
  by (auto simp: header_at_def set_head_def nth_list_update list_update_beyond)

text \<open>Each link after an assignment to a link.\<close>

lemma links_set_up:
  "up_of (set_up n v h) x = (if x = n \<and> n < length (nodes h) then v else up_of h x)"
  "down_of (set_up n v h) x = down_of h x"
  "left_of (set_up n v h) x = left_of h x"
  "right_of (set_up n v h) x = right_of h x"
  "header_of (set_up n v h) x = header_of h x"
  "row_of (set_up n v h) x = row_of h x"
  by simp_all

lemma links_set_down:
  "up_of (set_down n v h) x = up_of h x"
  "down_of (set_down n v h) x = (if x = n \<and> n < length (nodes h) then v else down_of h x)"
  "left_of (set_down n v h) x = left_of h x"
  "right_of (set_down n v h) x = right_of h x"
  "header_of (set_down n v h) x = header_of h x"
  "row_of (set_down n v h) x = row_of h x"
  by simp_all

lemma links_set_left:
  "up_of (set_left n v h) x = up_of h x"
  "down_of (set_left n v h) x = down_of h x"
  "left_of (set_left n v h) x = (if x = n \<and> n < length (nodes h) then v else left_of h x)"
  "right_of (set_left n v h) x = right_of h x"
  "header_of (set_left n v h) x = header_of h x"
  "row_of (set_left n v h) x = row_of h x"
  by simp_all

lemma links_set_right:
  "up_of (set_right n v h) x = up_of h x"
  "down_of (set_right n v h) x = down_of h x"
  "left_of (set_right n v h) x = left_of h x"
  "right_of (set_right n v h) x = (if x = n \<and> n < length (nodes h) then v else right_of h x)"
  "header_of (set_right n v h) x = header_of h x"
  "row_of (set_right n v h) x = row_of h x"
  by simp_all

lemmas links_set = links_set_up links_set_down links_set_left links_set_right

text \<open>The eight assignments of \<open>createNode\<close>, on a structure that holds the new node.\<close>

lemma createNode_horizontal:
  assumes h1: "h1 = set_left n l h0"
    and h2: "h2 = set_right n (right (node_at h1 l)) h1"
    and h3: "h3 = set_left (right (node_at h2 l)) n h2"
    and h4: "h4 = set_right l n h3"
    and n: "n < length (nodes h0)" and l: "l < length (nodes h0)"
    and r: "right_of h0 l < length (nodes h0)"
  shows "right_of h4 x = (if x = l then n else if x = n then right_of h0 l else right_of h0 x)"
    and "left_of h4 x = (if x = right_of h0 l then n else if x = n then l else left_of h0 x)"
    and "up_of h4 x = up_of h0 x" and "down_of h4 x = down_of h0 x"
    and "header_of h4 x = header_of h0 x" and "row_of h4 x = row_of h0 x"
    and "length (nodes h4) = length (nodes h0)" and "headers h4 = headers h0"
proof -
  have len: "length (nodes h1) = length (nodes h0)" "length (nodes h2) = length (nodes h0)"
    "length (nodes h3) = length (nodes h0)" "length (nodes h4) = length (nodes h0)"
    by (simp_all add: h1 h2 h3 h4)
  have r1: "right_of h1 y = right_of h0 y" for y
    by (simp only: h1 links_set)
  have r2: "right_of h2 y = (if y = n then right_of h0 l else right_of h0 y)" for y
    using n by (simp only: h2 links_set r1 len) simp
  have r2l: "right_of h2 l = right_of h0 l"
    by (simp add: r2)
  have r3: "right_of h3 y = (if y = n then right_of h0 l else right_of h0 y)" for y
    by (simp only: h3 links_set r2)
  show "right_of h4 x = (if x = l then n else if x = n then right_of h0 l else right_of h0 x)"
    using l by (simp only: h4 links_set r3 len) simp
  have l1: "left_of h1 y = (if y = n then l else left_of h0 y)" for y
    using n by (simp only: h1 links_set len) simp
  have l2: "left_of h2 y = (if y = n then l else left_of h0 y)" for y
    by (simp only: h2 links_set l1)
  have l3: "left_of h3 y = (if y = right_of h0 l then n else if y = n then l else left_of h0 y)" for y
    using r by (simp only: h3 links_set l2 r2l len) simp
  show "left_of h4 x = (if x = right_of h0 l then n else if x = n then l else left_of h0 x)"
    by (simp only: h4 links_set l3)
  show "up_of h4 x = up_of h0 x" "down_of h4 x = down_of h0 x"
    "header_of h4 x = header_of h0 x" "row_of h4 x = row_of h0 x"
    by (simp_all only: h1 h2 h3 h4 links_set)
  show "length (nodes h4) = length (nodes h0)"
    by (rule len)
  show "headers h4 = headers h0"
    by (simp add: h1 h2 h3 h4 set_left_def set_right_def)
qed

lemma createNode_vertical:
  assumes h5: "h5 = set_up n u h4"
    and h6: "h6 = set_down n (down (node_at h5 u)) h5"
    and h7: "h7 = set_up (down (node_at h6 u)) n h6"
    and h8: "h8 = set_down u n h7"
    and n: "n < length (nodes h4)" and u: "u < length (nodes h4)"
    and d: "down_of h4 u < length (nodes h4)"
  shows "down_of h8 x = (if x = u then n else if x = n then down_of h4 u else down_of h4 x)"
    and "up_of h8 x = (if x = down_of h4 u then n else if x = n then u else up_of h4 x)"
    and "left_of h8 x = left_of h4 x" and "right_of h8 x = right_of h4 x"
    and "header_of h8 x = header_of h4 x" and "row_of h8 x = row_of h4 x"
    and "length (nodes h8) = length (nodes h4)" and "headers h8 = headers h4"
proof -
  have len: "length (nodes h5) = length (nodes h4)" "length (nodes h6) = length (nodes h4)"
    "length (nodes h7) = length (nodes h4)" "length (nodes h8) = length (nodes h4)"
    by (simp_all add: h5 h6 h7 h8)
  have r1: "down_of h5 y = down_of h4 y" for y
    by (simp only: h5 links_set)
  have r2: "down_of h6 y = (if y = n then down_of h4 u else down_of h4 y)" for y
    using n by (simp only: h6 links_set r1 len) simp
  have r2l: "down_of h6 u = down_of h4 u"
    by (simp add: r2)
  have r3: "down_of h7 y = (if y = n then down_of h4 u else down_of h4 y)" for y
    by (simp only: h7 links_set r2)
  show "down_of h8 x = (if x = u then n else if x = n then down_of h4 u else down_of h4 x)"
    using u by (simp only: h8 links_set r3 len) simp
  have l1: "up_of h5 y = (if y = n then u else up_of h4 y)" for y
    using n by (simp only: h5 links_set len) simp
  have l2: "up_of h6 y = (if y = n then u else up_of h4 y)" for y
    by (simp only: h6 links_set l1)
  have l3: "up_of h7 y = (if y = down_of h4 u then n else if y = n then u else up_of h4 y)" for y
    using d by (simp only: h7 links_set l2 r2l len) simp
  show "up_of h8 x = (if x = down_of h4 u then n else if x = n then u else up_of h4 x)"
    by (simp only: h8 links_set l3)
  show "left_of h8 x = left_of h4 x" "right_of h8 x = right_of h4 x"
    "header_of h8 x = header_of h4 x" "row_of h8 x = row_of h4 x"
    by (simp_all only: h5 h6 h7 h8 links_set)
  show "length (nodes h8) = length (nodes h4)"
    by (rule len)
  show "headers h8 = headers h4"
    by (simp add: h5 h6 h7 h8 set_up_def set_down_def)
qed


lemma createNode_fields:
  assumes c: "createNode col opt_left opt_up h = (n, h')"
    and L: "L = (case opt_left of Some x \<Rightarrow> x | None \<Rightarrow> length (nodes h))"
    and R: "R = (case opt_left of Some x \<Rightarrow> right_of h x | None \<Rightarrow> length (nodes h))"
    and U: "U = (case opt_up of Some x \<Rightarrow> x | None \<Rightarrow> length (nodes h))"
    and D: "D = (case opt_up of Some x \<Rightarrow> down_of h x | None \<Rightarrow> length (nodes h))"
    and left: "\<forall>x. opt_left = Some x \<longrightarrow>
        x < length (nodes h) \<and> right_of h x < length (nodes h)"
    and up: "\<forall>x. opt_up = Some x \<longrightarrow>
        x < length (nodes h) \<and> down_of h x < length (nodes h)"
  shows "n = length (nodes h)" and "length (nodes h') = Suc (length (nodes h))"
    and "headers h' = headers h"
    and "x \<le> length (nodes h) \<Longrightarrow>
           right_of h' x = (if x = L then n else if x = n then R else right_of h x)"
    and "x \<le> length (nodes h) \<Longrightarrow>
           left_of h' x = (if x = R then n else if x = n then L else left_of h x)"
    and "x \<le> length (nodes h) \<Longrightarrow>
           down_of h' x = (if x = U then n else if x = n then D else down_of h x)"
    and "x \<le> length (nodes h) \<Longrightarrow>
           up_of h' x = (if x = D then n else if x = n then U else up_of h x)"
    and "x \<le> length (nodes h) \<Longrightarrow> header_of h' x = (if x = n then col else header_of h x)"
    and "x \<le> length (nodes h) \<Longrightarrow> row_of h' x = (if x = n then None else row_of h x)"
proof -
  let ?n = "length (nodes h)"
  define h0 where "h0 = h\<lparr>nodes := nodes h @
      [\<lparr>up = ?n, down = ?n, left = ?n, right = ?n, header = col, rowNumber = None\<rparr>]\<rparr>"
  define h1 where "h1 = set_left ?n L h0"
  define h2 where "h2 = set_right ?n (right (node_at h1 L)) h1"
  define h3 where "h3 = set_left (right (node_at h2 L)) ?n h2"
  define h4 where "h4 = set_right L ?n h3"
  define h5 where "h5 = set_up ?n U h4"
  define h6 where "h6 = set_down ?n (down (node_at h5 U)) h5"
  define h7 where "h7 = set_up (down (node_at h6 U)) ?n h6"
  define h8 where "h8 = set_down U ?n h7"
  have "createNode col opt_left opt_up h = (?n, h8)"
    unfolding createNode_def Let_def h8_def h7_def h6_def h5_def h4_def h3_def h2_def h1_def
      h0_def L U
    by (rule refl)
  with c have n: "n = ?n" and h': "h' = h8"
    by simp_all
  have len0: "length (nodes h0) = Suc ?n" and hd0: "headers h0 = headers h"
    by (simp_all add: h0_def)
  have at0: "node_at h0 y = (if y < ?n then node_at h y
      else \<lparr>up = ?n, down = ?n, left = ?n, right = ?n, header = col, rowNumber = None\<rparr>)"
    if "y \<le> ?n" for y
    using that by (auto simp: h0_def node_at_def nth_append)
  have range: "L \<le> length (nodes h)" "R \<le> length (nodes h)"
      "U \<le> length (nodes h)" "D \<le> length (nodes h)"
    using left up by (auto simp: L R U D split: option.splits intro: less_imp_le)
  have r0: "right_of h0 L = R"
    using left at0 [of L] by (auto simp: L R split: option.splits)
  have d0: "down_of h0 U = D"
    using up at0 [of U] by (auto simp: U D split: option.splits)
  have in0: "?n < length (nodes h0)" "L < length (nodes h0)" "right_of h0 L < length (nodes h0)"
    using range r0 by (simp_all add: len0)
  note H = createNode_horizontal [OF h1_def h2_def h3_def h4_def in0]
  have in4: "?n < length (nodes h4)" "U < length (nodes h4)" "down_of h4 U < length (nodes h4)"
    using range d0 by (simp_all add: H len0)
  note V = createNode_vertical [OF h5_def h6_def h7_def h8_def in4]
  show "n = ?n"
    by (rule n)
  show "length (nodes h') = Suc ?n"
    by (simp add: h' V H len0)
  show "headers h' = headers h"
    by (simp add: h' V H hd0)
  show "right_of h' x = (if x = L then n else if x = n then R else right_of h x)" if "x \<le> ?n"
    using that range at0 [OF that] by (auto simp: h' V H r0 n)
  show "left_of h' x = (if x = R then n else if x = n then L else left_of h x)" if "x \<le> ?n"
    using that range at0 [OF that] by (auto simp: h' V H r0 n)
  show "down_of h' x = (if x = U then n else if x = n then D else down_of h x)" if "x \<le> ?n"
    using that range at0 [OF that] by (auto simp: h' V H d0 n)
  show "up_of h' x = (if x = D then n else if x = n then U else up_of h x)" if "x \<le> ?n"
    using that range at0 [OF that] by (auto simp: h' V H d0 n)
  show "header_of h' x = (if x = n then col else header_of h x)" if "x \<le> ?n"
    using that at0 [OF that] by (auto simp: h' V H n)
  show "row_of h' x = (if x = n then None else row_of h x)" if "x \<le> ?n"
    using that at0 [OF that] by (auto simp: h' V H n)
qed

lemma less_8_cases:
  "k < 8 \<Longrightarrow> k = (7::nat) \<or> k = 6 \<or> k = 5 \<or> k = 4 \<or> k = 3 \<or> k = 2 \<or> k = 1 \<or> k = 0"
  by arith

lemma less_4_cases: "k < 4 \<Longrightarrow> k = (3::nat) \<or> k = 2 \<or> k = 1 \<or> k = 0"
  by arith

lemma example_links_ok: "links_ok example_heap"
  unfolding links_ok_def
proof (intro conjI allI impI)
  fix n assume "n < length (nodes example_heap)"
  then have "n < 8" by (simp add: example_heap_def)
  from less_8_cases [OF this]
  show "up_of example_heap n < length (nodes example_heap)"
    "down_of example_heap n < length (nodes example_heap)"
    "left_of example_heap n < length (nodes example_heap)"
    "right_of example_heap n < length (nodes example_heap)"
    "header_of example_heap n < length (headers example_heap)"
    "header_of example_heap (up_of example_heap n) = header_of example_heap n"
    "header_of example_heap (down_of example_heap n) = header_of example_heap n"
    by (elim disjE; simp add: example_heap_def node_at_def)+
next
  fix c assume "c < length (headers example_heap)"
  then have "c < 4" by (simp add: example_heap_def)
  from less_4_cases [OF this]
  show "prev_of example_heap c < length (headers example_heap)"
    "next_of example_heap c < length (headers example_heap)"
    by (elim disjE; simp add: example_heap_def header_at_def)+
qed

lemma example_row_ring:
  "row_ring_ok example_heap 3" "row_ring_ok example_heap 4" "row_ring_ok example_heap 5"
  "row_ring_ok example_heap 6" "row_ring_ok example_heap 7"
proof -
  have l: "length (nodes example_heap) = 8"
    by (simp add: example_heap_def)
  have m: "m < 8 \<longleftrightarrow> m \<in> set [0, 1, 2, 3, 4, 5, 6, 7]" for m :: nat
    by (simp only: list.set insert_iff empty_iff) arith
  have s: "{m. m < length (nodes example_heap) \<and> P m} = set (filter P [0, 1, 2, 3, 4, 5, 6, 7])"
    for P
    unfolding l m set_filter by blast
  have e: "row_ring_ok example_heap n"
    if "ring (right_of example_heap) (left_of example_heap) n ms"
      and "set ms = set (filter (\<lambda>m. m \<noteq> n \<and> row_of example_heap m = row_of example_heap n)
          [0, 1, 2, 3, 4, 5, 6, 7])"
      and "distinct (map (header_of example_heap) (n # ms))" for n ms
    unfolding row_ring_ok_def s using that by blast
  show "row_ring_ok example_heap 3"
    by (rule e [of _ "[4]"]) (simp_all add: ring_def cyc_def example_heap_def node_at_def)
  show "row_ring_ok example_heap 4"
    by (rule e [of _ "[3]"]) (simp_all add: ring_def cyc_def example_heap_def node_at_def)
  show "row_ring_ok example_heap 5"
    by (rule e [of _ "[]"]) (simp_all add: ring_def cyc_def example_heap_def node_at_def)
  show "row_ring_ok example_heap 6"
    by (rule e [of _ "[7]"]) (simp_all add: ring_def cyc_def example_heap_def node_at_def)
  show "row_ring_ok example_heap 7"
    by (rule e [of _ "[6]"]) (simp_all add: ring_def cyc_def example_heap_def node_at_def)
qed

lemma example_rows_ok: "rows_ok example_heap"
  unfolding rows_ok_def
proof (intro allI impI)
  fix n assume "n < length (nodes example_heap)" and r: "row_of example_heap n \<noteq> None"
  then have "n < 8" by (simp add: example_heap_def)
  from less_8_cases [OF this] r have "n = 3 \<or> n = 4 \<or> n = 5 \<or> n = 6 \<or> n = 7"
    by (elim disjE; simp add: example_heap_def node_at_def)
  then show "row_ring_ok example_heap n"
    using example_row_ring by (elim disjE; simp)
qed

lemma example_column_ok:
  "column_ok example_heap 0 (example_columns 0)" "column_ok example_heap 1 (example_columns 1)"
  "column_ok example_heap 2 (example_columns 2)"
  by (simp_all add: column_ok_def example_columns_def ring_def cyc_def example_heap_def
      node_at_def header_at_def)

lemma example_search_inv: "search_inv example_heap 3 [0, 1, 2] example_columns"
  unfolding search_inv_def
proof (intro conjI ballI allI impI)
  show "links_ok example_heap" by (rule example_links_ok)
  show "rows_ok example_heap" by (rule example_rows_ok)
  show "3 < length (headers example_heap)" by (simp add: example_heap_def)
  show "ring (next_of example_heap) (prev_of example_heap) 3 [0, 1, 2]"
    by (simp add: ring_def cyc_def example_heap_def header_at_def)
  show "column_ok example_heap c (example_columns c)" if "c \<in> set [0, 1, 2]" for c
    using that example_column_ok by auto
next
  fix c n m
  assume c: "c \<in> set [0, 1, 2]" and n: "n \<in> set (example_columns c)"
    and m: "m < length (nodes example_heap)" and r: "row_of example_heap m = row_of example_heap n"
  from c n have n': "n = 3 \<or> n = 4 \<or> n = 5 \<or> n = 6 \<or> n = 7"
    by (auto simp: example_columns_def)
  from m have "m < 8" by (simp add: example_heap_def)
  from less_8_cases [OF this] n' r
  show "header_of example_heap m \<in> set [0, 1, 2]"
    "m \<in> set (example_columns (header_of example_heap m))"
    by (elim disjE; simp add: example_heap_def node_at_def example_columns_def)+
qed

text \<open>
  C6. A structure is well formed when it satisfies the invariant of the
  search. For such a structure and a header \<open>c\<close> in the ring of the root,
  \<open>cover\<close> returns, \<open>uncover\<close> of the same header on the covered structure
  returns, and the result is the structure before the cover: the two arenas
  are equal, so every link, every size and every other field has its former
  value.
\<close>

theorem uncover_after_cover_restores:
  assumes "search_inv h root cs vs" and "c \<in> set cs" and "length (nodes h) < fuel"
  shows "\<exists>g. cover fuel c h = Returns g \<and> uncover fuel c g = Returns h"
  using cover_spec [OF assms] by blast

theorem uncover_after_cover_restores_witness:
  "search_inv example_heap 3 [0, 1, 2] example_columns \<and>
   (\<exists>g. cover 9 1 example_heap = Returns g \<and> g \<noteq> example_heap \<and>
        uncover 9 1 g = Returns example_heap)"
proof -
  have f: "length (nodes example_heap) < 9"
    by (simp add: example_heap_def)
  from uncover_after_cover_restores [OF example_search_inv _ f, of 1]
  obtain g where g: "cover 9 1 example_heap = Returns g" "uncover 9 1 g = Returns example_heap"
    by auto
  have "cover 9 1 example_heap \<noteq> Returns example_heap"
    by (simp add: example_heap_def eval_rules cong: eval_congs)
  with g example_search_inv show ?thesis
    by auto
qed

section \<open>The search on concrete matrices\<close>

text \<open>The scenario of the README and of the test suite.\<close>

lemma solve_readme_matrix:
  "solve 20 [[1,0,0,1,0,0,1],[1,0,0,1,0,0,0],[0,0,0,1,1,0,1],[0,0,1,0,1,1,0],
             [0,1,1,0,0,1,1],[0,1,0,0,0,0,1]] None
   = Returns [[Some 1, Some 3, Some 5]]"
  by (simp add: eval_rules cong: eval_congs del: recurse.simps)

text \<open>
  C1 (exactness). On the matrix with rows \<open>[1,0,0]\<close>, \<open>[0,1,0]\<close>, \<open>[0,0,1]\<close>,
  \<open>[0,1,1]\<close> the search returns \<open>[0,1,2]\<close> and then \<open>[0,3,2]\<close>. The second
  solution was completed at depth 2 by rows 0 and 3, but \<open>partials.slice(0)\<close>
  copies the whole array, which still holds row 2 at index 2 from the first
  solution: the rows 0, 3, 2 sum to 2 in the last column, so the returned
  solution is not an exact cover (the rows 0, 3 chosen on the path are one).
\<close>

theorem solve_returns_stale_row:
  "solve 20 [[1,0,0],[0,1,0],[0,0,1],[0,1,1]] None
     = Returns [[Some 0, Some 1, Some 2], [Some 0, Some 3, Some 2]]
   \<and> row_indices [Some 0, Some 3, Some 2] = Some [0, 3, 2]
   \<and> column_sum [[1,0,0],[0,1,0],[0,0,1],[0,1,1]] [0, 3, 2] 2 = 2
   \<and> \<not> exact_cover [[1,0,0],[0,1,0],[0,0,1],[0,1,1]] [0, 3, 2]
   \<and> exact_cover [[1,0,0],[0,1,0],[0,0,1],[0,1,1]] [0, 3]"
  by (simp add: eval_rules exact_cover_def column_sum_def upt_rec
      cong: eval_congs del: recurse.simps)

text \<open>
  C2 (no duplicate rows, no extra entries). With two equal rows 2 and 3 the
  same stale entry makes a returned solution list row 3 twice: the last
  solution was completed by rows 4 and 3, and index 2 still holds row 3.
\<close>

theorem solve_returns_duplicate_row:
  "solve 20 [[1,0,0],[0,1,0],[0,0,1],[0,0,1],[1,1,0]] None
     = Returns [[Some 0, Some 1, Some 2], [Some 0, Some 1, Some 3],
                [Some 4, Some 2, Some 3], [Some 4, Some 3, Some 3]]
   \<and> \<not> distinct [Some 4, Some 3, Some (3::nat)]
   \<and> exact_cover [[1,0,0],[0,1,0],[0,0,1],[0,0,1],[1,1,0]] [4, 3]"
  by (simp add: eval_rules exact_cover_def column_sum_def upt_rec
      cong: eval_congs del: recurse.simps)

end
